theory Spec2Isabelle
  imports Main "HOL-Library.Sublist"
begin

section \<open>Python strings\<close>

text \<open>
  A Python \<open>str\<close> is modelled as a \<open>string\<close> (a list of 8-bit characters); the model is
  exact on ASCII text, which is what URLs, the keyword tables and the patterns of
  \<open>extract_api.py\<close> consist of.  \<open>s.startswith(p)\<close> is \<open>prefix p s\<close>, \<open>s.endswith(p)\<close> is
  \<open>suffix p s\<close> and \<open>p in s\<close> is \<open>sublist p s\<close>.  An exception is represented by its
  message \<open>str(e)\<close>, and a computation that may raise returns \<open>exn + 'a\<close>.
\<close>

type_synonym exn = string

abbreviation dquote :: char where "dquote \<equiv> CHR 0x22"
abbreviation squote :: char where "squote \<equiv> CHR 0x27"

definition lower_char :: "char \<Rightarrow> char" where
  "lower_char c =
     (case map_of (zip ''ABCDEFGHIJKLMNOPQRSTUVWXYZ'' ''abcdefghijklmnopqrstuvwxyz'') c of
        Some d \<Rightarrow> d
      | None \<Rightarrow> c)"

definition lower :: "string \<Rightarrow> string" where
  "lower s = map lower_char s"

definition is_ascii_alpha :: "char \<Rightarrow> bool" where
  "is_ascii_alpha c \<longleftrightarrow>
     c \<in> set ''abcdefghijklmnopqrstuvwxyzABCDEFGHIJKLMNOPQRSTUVWXYZ''"

text \<open>\<open>s.split(d)\<close> for a one-character separator, and \<open>d.join(xs)\<close>.\<close>

fun split :: "char \<Rightarrow> string \<Rightarrow> string list" where
  "split d [] = [[]]"
| "split d (c # cs) =
     (if c = d then [] # split d cs
      else (case split d cs of [] \<Rightarrow> [[c]] | x # xs \<Rightarrow> (c # x) # xs))"

fun join :: "char \<Rightarrow> string list \<Rightarrow> string" where
  "join d [] = []"
| "join d [x] = x"
| "join d (x # y # ys) = x @ d # join d (y # ys)"

section \<open>The library functions of \<open>urllib.parse\<close>\<close>

text \<open>
  \<open>urlsplit\<close>, \<open>urlparse\<close>, \<open>urlunparse\<close> and \<open>urljoin\<close> follow CPython 3.11's
  \<open>urllib/parse.py\<close> statement by statement.  The test \<open>_check_bracketed_host\<close> of a
  bracketed host (it calls the \<open>ipaddress\<close> module) is the parameter \<open>chk\<close>: it yields
  \<open>None\<close> when the host is accepted and the message of the \<open>ValueError\<close> otherwise.
  \<open>_checknetloc\<close> only acts on a non-ASCII host and is left out.
\<close>

definition scheme_chars :: string where
  "scheme_chars =
     ''abcdefghijklmnopqrstuvwxyz'' @ ''ABCDEFGHIJKLMNOPQRSTUVWXYZ'' @ ''0123456789'' @ ''+-.''"

definition uses_relative :: "string list" where
  "uses_relative = ['''', ''ftp'', ''http'', ''gopher'', ''nntp'', ''imap'',
     ''wais'', ''file'', ''https'', ''shttp'', ''mms'',
     ''prospero'', ''rtsp'', ''rtsps'', ''rtspu'', ''sftp'',
     ''svn'', ''svn+ssh'', ''ws'', ''wss'']"

definition uses_netloc :: "string list" where
  "uses_netloc = ['''', ''ftp'', ''http'', ''gopher'', ''nntp'', ''telnet'',
     ''imap'', ''wais'', ''file'', ''mms'', ''https'', ''shttp'',
     ''snews'', ''prospero'', ''rtsp'', ''rtsps'', ''rtspu'', ''rsync'',
     ''svn'', ''svn+ssh'', ''sftp'', ''nfs'', ''git'', ''git+ssh'',
     ''ws'', ''wss'']"

definition uses_params :: "string list" where
  "uses_params = ['''', ''ftp'', ''hdl'', ''prospero'', ''http'', ''imap'',
     ''https'', ''shttp'', ''rtsp'', ''rtsps'', ''rtspu'', ''sip'',
     ''sips'', ''mms'', ''sftp'', ''tel'']"

text \<open>The characters of \<open>_WHATWG_C0_CONTROL_OR_SPACE\<close> (code points 0 to 32) and of
  \<open>_UNSAFE_URL_BYTES_TO_REMOVE\<close> (tab, carriage return, line feed).\<close>

definition c0_control_or_space :: "char \<Rightarrow> bool" where
  "c0_control_or_space c \<longleftrightarrow> (of_char c :: nat) \<le> 32"

definition unsafe_url_byte :: "char \<Rightarrow> bool" where
  "unsafe_url_byte c \<longleftrightarrow> c \<in> {CHR 0x09, CHR 0x0D, CHR 0x0A}"

record split_result =
  s_scheme :: string
  s_netloc :: string
  s_path :: string
  s_query :: string
  s_fragment :: string

record parse_result =
  scheme :: string
  netloc :: string
  path :: string
  params :: string
  query :: string
  fragment :: string

text \<open>\<open>_splitnetloc(url, 2)\<close> on a \<open>url\<close> that starts with \<open>//\<close>: the host runs up to the
  first of \<open>/\<close>, \<open>?\<close>, \<open>#\<close>.\<close>

definition splitnetloc :: "string \<Rightarrow> string \<times> string" where
  "splitnetloc url =
     (let r = drop 2 url
      in (takeWhile (\<lambda>c. c \<notin> set ''/?#'') r, dropWhile (\<lambda>c. c \<notin> set ''/?#'') r))"

text \<open>The checks on the host: unbalanced brackets raise; with both brackets present the
  text between the first \<open>[\<close> and the next \<open>]\<close> goes to \<open>_check_bracketed_host\<close>.\<close>

definition check_netloc_brackets :: "(string \<Rightarrow> exn option) \<Rightarrow> string \<Rightarrow> exn option" where
  "check_netloc_brackets chk nl =
     (if (CHR ''['' \<in> set nl \<and> CHR '']'' \<notin> set nl) \<or> (CHR '']'' \<in> set nl \<and> CHR ''['' \<notin> set nl)
      then Some ''Invalid IPv6 URL''
      else if CHR ''['' \<in> set nl \<and> CHR '']'' \<in> set nl
      then chk (takeWhile (\<lambda>c. c \<noteq> CHR '']'') (drop 1 (dropWhile (\<lambda>c. c \<noteq> CHR ''['') nl)))
      else None)"

definition urlsplit :: "(string \<Rightarrow> exn option) \<Rightarrow> string \<Rightarrow> string \<Rightarrow> exn + split_result" where
  "urlsplit chk url0 scheme0 =
     (let url1 = filter (\<lambda>c. \<not> unsafe_url_byte c) (dropWhile c0_control_or_space url0);
          scheme1 = filter (\<lambda>c. \<not> unsafe_url_byte c)
                      (rev (dropWhile c0_control_or_space
                         (rev (dropWhile c0_control_or_space scheme0))));
          pre = takeWhile (\<lambda>c. c \<noteq> CHR '':'') url1;
          has_scheme = (CHR '':'' \<in> set url1 \<and> pre \<noteq> [] \<and> is_ascii_alpha (hd pre)
                         \<and> list_all (\<lambda>c. c \<in> set scheme_chars) pre);
          scheme2 = (if has_scheme then lower pre else scheme1);
          url2 = (if has_scheme then drop 1 (dropWhile (\<lambda>c. c \<noteq> CHR '':'') url1) else url1);
          has_netloc = (take 2 url2 = ''//'');
          nl = (if has_netloc then fst (splitnetloc url2) else []);
          url3 = (if has_netloc then snd (splitnetloc url2) else url2);
          url4 = takeWhile (\<lambda>c. c \<noteq> CHR ''#'') url3;
          frag = drop 1 (dropWhile (\<lambda>c. c \<noteq> CHR ''#'') url3);
          url5 = takeWhile (\<lambda>c. c \<noteq> CHR ''?'') url4;
          qry = drop 1 (dropWhile (\<lambda>c. c \<noteq> CHR ''?'') url4)
      in case (if has_netloc then check_netloc_brackets chk nl else None) of
           Some e \<Rightarrow> Inl e
         | None \<Rightarrow> Inr \<lparr>s_scheme = scheme2, s_netloc = nl, s_path = url5,
                         s_query = qry, s_fragment = frag\<rparr>)"

text \<open>\<open>_splitparams\<close>: the parameters start at the first \<open>;\<close> of the last path segment.\<close>

definition splitparams :: "string \<Rightarrow> string \<times> string" where
  "splitparams url =
     (if CHR ''/'' \<in> set url
      then (let last_seg = rev (takeWhile (\<lambda>c. c \<noteq> CHR ''/'') (rev url));
                front = take (length url - length last_seg) url
            in if CHR '';'' \<in> set last_seg
               then (front @ takeWhile (\<lambda>c. c \<noteq> CHR '';'') last_seg,
                     drop 1 (dropWhile (\<lambda>c. c \<noteq> CHR '';'') last_seg))
               else (url, []))
      else (takeWhile (\<lambda>c. c \<noteq> CHR '';'') url, drop 1 (dropWhile (\<lambda>c. c \<noteq> CHR '';'') url)))"

definition urlparse :: "(string \<Rightarrow> exn option) \<Rightarrow> string \<Rightarrow> string \<Rightarrow> exn + parse_result" where
  "urlparse chk url scheme0 =
     (case urlsplit chk url scheme0 of
        Inl e \<Rightarrow> Inl e
      | Inr sp \<Rightarrow>
          (let has_params = (s_scheme sp \<in> set uses_params \<and> CHR '';'' \<in> set (s_path sp))
           in Inr \<lparr>scheme = s_scheme sp, netloc = s_netloc sp,
                   path = (if has_params then fst (splitparams (s_path sp)) else s_path sp),
                   params = (if has_params then snd (splitparams (s_path sp)) else []),
                   query = s_query sp, fragment = s_fragment sp\<rparr>))"

text \<open>\<open>urlunsplit\<close> and \<open>urlunparse\<close>.\<close>

definition urlunsplit :: "split_result \<Rightarrow> string" where
  "urlunsplit sp =
     (let url0 = s_path sp;
          url1 = (if s_netloc sp \<noteq> [] \<or> (s_scheme sp \<noteq> [] \<and> s_scheme sp \<in> set uses_netloc)
                     \<or> take 2 url0 = ''//''
                  then ''//'' @ s_netloc sp
                         @ (if url0 \<noteq> [] \<and> take 1 url0 \<noteq> ''/'' then ''/'' @ url0 else url0)
                  else url0);
          url2 = (if s_scheme sp \<noteq> [] then s_scheme sp @ '':'' @ url1 else url1);
          url3 = (if s_query sp \<noteq> [] then url2 @ ''?'' @ s_query sp else url2)
      in if s_fragment sp \<noteq> [] then url3 @ ''#'' @ s_fragment sp else url3)"

definition urlunparse :: "parse_result \<Rightarrow> string" where
  "urlunparse p =
     urlunsplit \<lparr>s_scheme = scheme p, s_netloc = netloc p,
                 s_path = (if params p \<noteq> [] then path p @ '';'' @ params p else path p),
                 s_query = query p, s_fragment = fragment p\<rparr>"

text \<open>The loop of \<open>urljoin\<close> over the path segments: \<open>..\<close> pops (an empty stack is left
  alone), \<open>.\<close> is skipped, any other segment is appended.\<close>

definition resolve_segment :: "string list \<Rightarrow> string \<Rightarrow> string list" where
  "resolve_segment resolved seg =
     (if seg = ''..'' then butlast resolved
      else if seg = ''.'' then resolved
      else resolved @ [seg])"

definition urljoin :: "(string \<Rightarrow> exn option) \<Rightarrow> string \<Rightarrow> string \<Rightarrow> exn + string" where
  "urljoin chk base url =
     (if base = [] then Inr url
      else if url = [] then Inr base
      else case urlparse chk base [] of
        Inl e \<Rightarrow> Inl e
      | Inr b \<Rightarrow>
         (case urlparse chk url (scheme b) of
            Inl e \<Rightarrow> Inl e
          | Inr u \<Rightarrow>
             if scheme u \<noteq> scheme b \<or> scheme u \<notin> set uses_relative then Inr url
             else if scheme u \<in> set uses_netloc \<and> netloc u \<noteq> [] then Inr (urlunparse u)
             else
               (let nl = (if scheme u \<in> set uses_netloc then netloc b else netloc u)
                in if path u = [] \<and> params u = []
                   then Inr (urlunparse (u\<lparr>netloc := nl, path := path b, params := params b,
                                query := (if query u = [] then query b else query u)\<rparr>))
                   else
                    (let base_parts0 = split CHR ''/'' (path b);
                         base_parts = (if last base_parts0 \<noteq> [] then butlast base_parts0
                                       else base_parts0);
                         segments0 = base_parts @ split CHR ''/'' (path u);
                         segments =
                           (if take 1 (path u) = ''/'' then split CHR ''/'' (path u)
                            else take 1 segments0
                                 @ filter (\<lambda>s. s \<noteq> [])
                                     (drop 1 (take (length segments0 - 1) segments0))
                                 @ (if length segments0 > 1 then [last segments0] else []));
                         resolved0 = foldl resolve_segment [] segments;
                         resolved = (if last segments \<in> {''.'', ''..''} then resolved0 @ [[]]
                                     else resolved0);
                         joined = join CHR ''/'' resolved
                     in Inr (urlunparse (u\<lparr>netloc := nl,
                               path := (if joined = [] then ''/'' else joined)\<rparr>))))))"

section \<open>The regular expressions of the crawler\<close>

text \<open>
  The patterns of \<open>extract_api.py\<close> use literal characters, the negated classes
  \<open>[^...]\<close> under \<open>*\<close> and \<open>+\<close>, a positive class, alternation and capturing groups.
  \<open>rmatch\<close> is a backtracking matcher in continuation style with Python's priorities:
  the repetitions are greedy, an alternation tries its left branch first, and the first
  successful path is the match.  The flag \<open>ic\<close> is \<open>re.IGNORECASE\<close>.
\<close>

datatype regex =
    Chr char
  | OneOf string
  | StarNot string
  | PlusNot string
  | Eps
  | Cat regex regex
  | Alt regex regex
  | Grp nat regex

primrec lit :: "string \<Rightarrow> regex" where
  "lit [] = Eps"
| "lit (c # cs) = Cat (Chr c) (lit cs)"

type_synonym groups = "nat \<Rightarrow> string option"

fun star_greedy :: "(char \<Rightarrow> bool) \<Rightarrow> string \<Rightarrow> (string \<Rightarrow> 'a option) \<Rightarrow> 'a option" where
  "star_greedy P [] k = k []"
| "star_greedy P (c # cs) k =
     (if P c
      then (case star_greedy P cs k of Some r \<Rightarrow> Some r | None \<Rightarrow> k (c # cs))
      else k (c # cs))"

fun rmatch :: "bool \<Rightarrow> regex \<Rightarrow> string \<Rightarrow> groups \<Rightarrow> (string \<Rightarrow> groups \<Rightarrow> 'a option) \<Rightarrow> 'a option" where
  "rmatch ic (Chr a) s g k =
     (case s of
        [] \<Rightarrow> None
      | c # cs \<Rightarrow> if (if ic then lower_char c = lower_char a else c = a) then k cs g else None)"
| "rmatch ic (OneOf as) s g k =
     (case s of [] \<Rightarrow> None | c # cs \<Rightarrow> if c \<in> set as then k cs g else None)"
| "rmatch ic (StarNot as) s g k = star_greedy (\<lambda>c. c \<notin> set as) s (\<lambda>s'. k s' g)"
| "rmatch ic (PlusNot as) s g k =
     (case s of
        [] \<Rightarrow> None
      | c # cs \<Rightarrow> if c \<notin> set as then star_greedy (\<lambda>c. c \<notin> set as) cs (\<lambda>s'. k s' g) else None)"
| "rmatch ic Eps s g k = k s g"
| "rmatch ic (Cat r1 r2) s g k = rmatch ic r1 s g (\<lambda>s' g'. rmatch ic r2 s' g' k)"
| "rmatch ic (Alt r1 r2) s g k =
     (case rmatch ic r1 s g k of Some x \<Rightarrow> Some x | None \<Rightarrow> rmatch ic r2 s g k)"
| "rmatch ic (Grp n r) s g k =
     rmatch ic r s g (\<lambda>s' g'. k s' (g'(n \<mapsto> take (length s - length s') s)))"

text \<open>A match that starts at the head of \<open>s\<close>: the number of characters it spans and
  its groups.\<close>

definition match_here :: "bool \<Rightarrow> regex \<Rightarrow> string \<Rightarrow> (nat \<times> groups) option" where
  "match_here ic r s = rmatch ic r s (\<lambda>_. None) (\<lambda>s' g. Some (length s - length s', g))"

definition group :: "groups \<Rightarrow> nat \<Rightarrow> string" where
  "group g n = (case g n of Some x \<Rightarrow> x | None \<Rightarrow> [])"

text \<open>
  \<open>re.sub(pattern, r'\n', s)\<close> and \<open>re.findall(pattern, s)\<close> for a pattern that cannot
  match the empty string: scan from the left; at a match, emit group \<open>n\<close> and go on behind
  the match (the counter holds the characters of the match still to be skipped); otherwise
  move one character on (\<open>re.sub\<close> keeps that character).
\<close>

fun re_sub_group :: "bool \<Rightarrow> regex \<Rightarrow> nat \<Rightarrow> nat \<Rightarrow> string \<Rightarrow> string" where
  "re_sub_group ic r n skip [] = []"
| "re_sub_group ic r n (Suc skip) (c # cs) = re_sub_group ic r n skip cs"
| "re_sub_group ic r n 0 (c # cs) =
     (case match_here ic r (c # cs) of
        Some (len, g) \<Rightarrow> group g n @ re_sub_group ic r n (len - 1) cs
      | None \<Rightarrow> c # re_sub_group ic r n 0 cs)"

fun re_findall_group :: "bool \<Rightarrow> regex \<Rightarrow> nat \<Rightarrow> nat \<Rightarrow> string \<Rightarrow> string list" where
  "re_findall_group ic r n skip [] = []"
| "re_findall_group ic r n (Suc skip) (c # cs) = re_findall_group ic r n skip cs"
| "re_findall_group ic r n 0 (c # cs) =
     (case match_here ic r (c # cs) of
        Some (len, g) \<Rightarrow> group g n # re_findall_group ic r n (len - 1) cs
      | None \<Rightarrow> re_findall_group ic r n 0 cs)"

section \<open>The URL classifier\<close>

text \<open>The pattern \<^verbatim>\<open>\[([^\]]+)\]\(([^)]+)\)\<close> of \<open>clean_url\<close>.\<close>

definition markdown_link :: regex where
  "markdown_link =
     Cat (Chr CHR ''['') (Cat (Grp 1 (PlusNot '']'')) (Cat (Chr CHR '']'')
       (Cat (Chr CHR ''('') (Cat (Grp 2 (PlusNot '')'')) (Chr CHR '')'')))))"

definition clean_url :: "(string \<Rightarrow> exn option) \<Rightarrow> string \<Rightarrow> exn + string" where
  "clean_url chk url0 =
     (let url = re_sub_group False markdown_link 2 0 url0
      in case urlparse chk url [] of
           Inl e \<Rightarrow> Inl e
         | Inr parsed \<Rightarrow>
             (let clean_url = scheme parsed @ ''://'' @ netloc parsed @ path parsed
              in if suffix ''/'' clean_url \<and> length clean_url > 8
                 then Inr (butlast clean_url)
                 else Inr clean_url))"

definition api_keywords :: "string list" where
  "api_keywords =
     [''api'', ''endpoint'', ''swagger'', ''openapi'', ''spec'', ''docs'', ''documentation'',
      ''reference'', ''guide'', ''tutorial'', ''integration'', ''developer'', ''dev'',
      ''rest'', ''graphql'', ''webhook'', ''auth'', ''authentication'', ''oauth'',
      ''sandbox'', ''postman'', ''curl'', ''json'', ''xml'', ''response'', ''request'',
      ''psd2'', ''aisp'', ''pisp'', ''cbpii'', ''berlin-group'', ''stet'', ''open-banking'']"

definition negative_keywords :: "string list" where
  "negative_keywords =
     [''login'', ''logout'', ''register'', ''signup'', ''signin'', ''privacy'', ''terms'',
      ''cookie'', ''gdpr'', ''legal'', ''contact'', ''about'', ''news'', ''blog'',
      ''career'', ''job'', ''press'', ''media'', ''investor'', ''support-ticket'',
      ''forum'', ''community'', ''social'', ''facebook'', ''twitter'', ''linkedin'']"

definition is_api_related_link :: "(string \<Rightarrow> exn option) \<Rightarrow> string \<Rightarrow> string \<Rightarrow> exn + bool" where
  "is_api_related_link chk url base_url =
     (case urlparse chk base_url [] of
        Inl e \<Rightarrow> Inl e
      | Inr b \<Rightarrow>
         (case urlparse chk url [] of
            Inl e \<Rightarrow> Inl e
          | Inr u \<Rightarrow>
             (let base_domain = netloc b; url_domain = netloc u; url_lower = lower url
              in if \<not> sublist base_domain url_domain \<and> \<not> sublist url_domain base_domain
                 then Inr False
                 else if list_ex (\<lambda>keyword. sublist keyword url_lower) negative_keywords
                 then Inr False
                 else if list_ex (\<lambda>keyword. sublist keyword url_lower) api_keywords
                 then Inr True
                 else Inr False)))"

section \<open>The scraper client and the state of a crawl\<close>

text \<open>
  The scraping service is an external collaborator.  \<open>app.scrape_url(url=..., formats=...,
  timeout=..., wait_for=...)\<close> is the field \<open>scrape_url\<close> of the environment: from the
  state \<open>'w\<close> of the outside world and the request it yields either the message of the
  exception it raises or the returned object (\<open>None\<close> stands for a falsy object), and the
  next state of the world.  The environment also holds the value of the variable
  \<open>FIRECRAWL_API_KEY\<close>, the order in which \<open>list(set(xs))\<close> enumerates its elements
  (Python leaves it unspecified) and the library's test of a bracketed host.
\<close>

datatype format = Markdown | Links | Html | Screenshot

record request =
  req_url :: string
  formats :: "format list"
  timeout :: "int option"
  wait_for :: "int option"

record response =
  resp_markdown :: "string option"
  resp_html :: "string option"
  resp_links :: "string list option"
  resp_screenshot :: "string option"

record 'w env =
  api_key :: "string option"
  scrape_url :: "'w \<Rightarrow> request \<Rightarrow> (exn + response option) \<times> 'w"
  list_of_set :: "string list \<Rightarrow> string list"
  check_bracketed_host :: "string \<Rightarrow> exn option"

text \<open>
  The state threaded through one crawl: the set \<open>visited_urls\<close>, the world of the
  scraper, and the requests issued so far in order, each with the place of
  \<open>extract_api.py\<close> that issued it (the main fetch of a node, the PDF retry, the fetch of
  an embedded specification, a probe of \<open>try_common_openapi_endpoints\<close>).
\<close>

datatype site = MainFetch | RetryFetch | SpecFetch | ProbeFetch

record 'w state =
  visited_urls :: "string set"
  world :: 'w
  trace :: "(site \<times> request) list"

definition fetch :: "'w env \<Rightarrow> site \<Rightarrow> request \<Rightarrow> 'w state \<Rightarrow> (exn + response option) \<times> 'w state" where
  "fetch env site rq st =
     (case scrape_url env (world st) rq of
        (r, w') \<Rightarrow> (r, st\<lparr>world := w', trace := trace st @ [(site, rq)]\<rparr>))"

text \<open>The truth value of \<open>getattr(data, 'markdown', None)\<close> and its like: present and
  not empty.\<close>

definition truthy :: "'a list option \<Rightarrow> bool" where
  "truthy x = (case x of None \<Rightarrow> False | Some v \<Rightarrow> v \<noteq> [])"

section \<open>Results\<close>

record content =
  markdown :: "string option"
  html :: "string option"
  screenshot :: "string option"

record spec_candidate =
  spec_url :: string
  spec_markdown :: "string option"
  spec_html :: "string option"

text \<open>The dictionary returned by \<open>extract_site_content\<close>: \<open>{}\<close> is \<open>Empty\<close>; otherwise it
  has the keys \<open>url\<close>, \<open>content\<close>, \<open>links\<close>, \<open>child_pages\<close> (the selectors
  \<open>page_url\<close>, \<open>page_content\<close>, \<open>page_links\<close>, \<open>child_pages\<close>), and the key
  \<open>openapi_specs\<close> when the last field is \<open>Some\<close>.\<close>

datatype page_result =
    Empty
  | Page (page_url: string) (page_content: content) (page_links: "string list")
         (child_pages: "page_result list") (openapi_specs: "spec_candidate list option")

text \<open>The test and the record shared by lines 131-138 and 259-267: a specification is
  recorded when the fetch returned a truthy object with non-empty markdown or HTML.\<close>

definition spec_of :: "string \<Rightarrow> exn + response option \<Rightarrow> spec_candidate list" where
  "spec_of u r =
     (case r of
        Inr (Some d) \<Rightarrow>
          if truthy (resp_markdown d) \<or> truthy (resp_html d)
          then [\<lparr>spec_url = u, spec_markdown = resp_markdown d, spec_html = resp_html d\<rparr>]
          else []
      | _ \<Rightarrow> [])"

section \<open>The specification locator\<close>

definition common_paths :: "string list" where
  "common_paths =
     [''/openapi.json'', ''/openapi.yaml'', ''/openapi.yml'',
      ''/swagger.json'', ''/swagger.yaml'', ''/swagger.yml'',
      ''/api-docs'', ''/api-docs.json'', ''/api-docs.yaml'',
      ''/v1/openapi.json'', ''/v2/openapi.json'', ''/v3/openapi.json'',
      ''/docs/openapi.json'', ''/documentation/openapi.json'']"

definition spec_request :: "string \<Rightarrow> request" where
  "spec_request u = \<lparr>req_url = u, formats = [Markdown, Html], timeout = None, wait_for = None\<rparr>"

text \<open>The loop of \<open>try_common_openapi_endpoints\<close>; an exception of a fetch is caught
  inside the loop body.\<close>

fun probe_paths :: "'w env \<Rightarrow> string \<Rightarrow> string list \<Rightarrow> 'w state \<Rightarrow> spec_candidate list \<times> 'w state" where
  "probe_paths env base_url [] st = ([], st)"
| "probe_paths env base_url (p # ps) st =
     (let u = base_url @ p;
          (r, st1) = fetch env ProbeFetch (spec_request u) st;
          (specs, st2) = probe_paths env base_url ps st1
      in (spec_of u r @ specs, st2))"

definition try_common_openapi_endpoints :: "'w env \<Rightarrow> string \<Rightarrow> 'w state \<Rightarrow> spec_candidate list \<times> 'w state" where
  "try_common_openapi_endpoints env base_url st = probe_paths env base_url common_paths st"

text \<open>The four patterns of lines 228-233, for the keys \<open>openapi\<close>, \<open>swagger\<close>, \<open>spec\<close>
  and \<open>api\<close>:  \<^verbatim>\<open>href=["\']([^"\']*KEY[^"\']*\.(?:json|yaml|yml))["\']\<close>.\<close>

definition href_pattern :: "string \<Rightarrow> regex" where
  "href_pattern key =
     Cat (lit ''href='') (Cat (OneOf [dquote, squote])
       (Cat (Grp 1 (Cat (StarNot [dquote, squote]) (Cat (lit key) (Cat (StarNot [dquote, squote])
               (Cat (Chr CHR ''.'') (Alt (lit ''json'') (Alt (lit ''yaml'') (lit ''yml'')))))))) 
          (OneOf [dquote, squote])))"

definition openapi_patterns :: "regex list" where
  "openapi_patterns = map href_pattern [''openapi'', ''swagger'', ''spec'', ''api'']"

text \<open>Lines 237-244: a match that starts with \<open>/\<close> is joined to the base, one that starts
  with \<open>http://\<close> or \<open>https://\<close> is kept, any other is dropped.\<close>

fun resolve_matches :: "(string \<Rightarrow> exn option) \<Rightarrow> string \<Rightarrow> string list \<Rightarrow> exn + string list" where
  "resolve_matches chk base_url [] = Inr []"
| "resolve_matches chk base_url (m # ms) =
     (if prefix ''/'' m
      then (case urljoin chk base_url m of
              Inl e \<Rightarrow> Inl e
            | Inr openapi_url \<Rightarrow>
                (case resolve_matches chk base_url ms of
                   Inl e \<Rightarrow> Inl e
                 | Inr us \<Rightarrow> Inr (openapi_url # us)))
      else if prefix ''http://'' m \<or> prefix ''https://'' m
      then (case resolve_matches chk base_url ms of
              Inl e \<Rightarrow> Inl e
            | Inr us \<Rightarrow> Inr (m # us))
      else resolve_matches chk base_url ms)"

text \<open>Lines 225-244: the scan of the HTML for embedded specification links.\<close>

definition find_embedded_specs :: "(string \<Rightarrow> exn option) \<Rightarrow> string \<Rightarrow> string \<Rightarrow> exn + string list" where
  "find_embedded_specs chk html_text base_url =
     resolve_matches chk base_url
       (concat (map (\<lambda>pattern. re_findall_group True pattern 1 0 html_text) openapi_patterns))"

text \<open>Lines 249-271: the fetch of the embedded specifications; the accumulator is the
  value of the key \<open>openapi_specs\<close>, absent until the first specification is recorded.\<close>

fun fetch_specs :: "'w env \<Rightarrow> string list \<Rightarrow> spec_candidate list option \<Rightarrow> 'w state \<Rightarrow> spec_candidate list option \<times> 'w state" where
  "fetch_specs env [] acc st = (acc, st)"
| "fetch_specs env (openapi_url # us) acc st =
     (let (r, st1) = fetch env SpecFetch (spec_request openapi_url) st;
          acc1 = (case spec_of openapi_url r of
                    [] \<Rightarrow> acc
                  | found \<Rightarrow> Some ((case acc of None \<Rightarrow> [] | Some xs \<Rightarrow> xs) @ found))
      in fetch_specs env us acc1 st1)"

section \<open>The recursive crawl driver\<close>

definition is_pdf :: "string \<Rightarrow> bool" where
  "is_pdf url = suffix ''.pdf'' (lower url)"

text \<open>The requests of lines 186-199 and of the retry, lines 329-334.\<close>

definition main_request :: "string \<Rightarrow> request" where
  "main_request url =
     (if is_pdf url
      then \<lparr>req_url = url, formats = [Markdown, Html],
            timeout = Some 120000, wait_for = Some 5000\<rparr>
      else \<lparr>req_url = url, formats = [Markdown, Links, Html, Screenshot],
            timeout = Some 30000, wait_for = Some 2000\<rparr>)"

definition retry_request :: "string \<Rightarrow> request" where
  "retry_request url =
     \<lparr>req_url = url, formats = [Markdown], timeout = Some 60000, wait_for = Some 1000\<rparr>"

text \<open>Lines 163-202: the key is read, the page is fetched, a falsy answer raises.\<close>

definition scrape_page :: "'w env \<Rightarrow> string \<Rightarrow> 'w state \<Rightarrow> (exn + response) \<times> 'w state" where
  "scrape_page env url st =
     (if \<not> truthy (api_key env)
      then (Inl ''FIRECRAWL_API_KEY not found in environment variables.'', st)
      else (case fetch env MainFetch (main_request url) st of
              (Inl e, st1) \<Rightarrow> (Inl e, st1)
            | (Inr None, st1) \<Rightarrow> (Inl ''No response received from Firecrawl'', st1)
            | (Inr (Some scraped_data), st1) \<Rightarrow> (Inr scraped_data, st1)))"

text \<open>Lines 285-299: the loop over the links of the page.\<close>

definition full_url_of :: "(string \<Rightarrow> exn option) \<Rightarrow> string \<Rightarrow> string \<Rightarrow> exn + string option" where
  "full_url_of chk base_url link =
     (if prefix ''/'' link
      then (case urljoin chk base_url link of Inl e \<Rightarrow> Inl e | Inr u \<Rightarrow> Inr (Some u))
      else if prefix ''http://'' link \<or> prefix ''https://'' link then Inr (Some link)
      else Inr None)"

fun api_related :: "(string \<Rightarrow> exn option) \<Rightarrow> string \<Rightarrow> string list \<Rightarrow> exn + string list" where
  "api_related chk base_url [] = Inr []"
| "api_related chk base_url (link # ls) =
     (case full_url_of chk base_url link of
        Inl e \<Rightarrow> Inl e
      | Inr None \<Rightarrow> api_related chk base_url ls
      | Inr (Some full_url0) \<Rightarrow>
          (case clean_url chk full_url0 of
             Inl e \<Rightarrow> Inl e
           | Inr full_url \<Rightarrow>
               (case is_api_related_link chk full_url base_url of
                  Inl e \<Rightarrow> Inl e
                | Inr relevant \<Rightarrow>
                    (case api_related chk base_url ls of
                       Inl e \<Rightarrow> Inl e
                     | Inr rest \<Rightarrow> Inr (if relevant then full_url # rest else rest)))))"

text \<open>Line 205: the base URL of the page, \<open>scheme://netloc\<close>.\<close>

definition base_url_of :: "(string \<Rightarrow> exn option) \<Rightarrow> string \<Rightarrow> exn + string" where
  "base_url_of chk url =
     (case urlparse chk url [] of
        Inl e \<Rightarrow> Inl e
      | Inr parsed \<Rightarrow> Inr (scheme parsed @ ''://'' @ netloc parsed))"

text \<open>Lines 246-278: the embedded specifications are fetched, the first three of them;
  when the scan found none and the page is the root, the common endpoints are probed.
  The result is the value of the key \<open>openapi_specs\<close>.\<close>

definition locate_specs :: "'w env \<Rightarrow> int \<Rightarrow> string \<Rightarrow> string list \<Rightarrow> 'w state \<Rightarrow> spec_candidate list option \<times> 'w state" where
  "locate_specs env depth base_url openapi_urls st =
     (let (specs1, st1) =
            (if openapi_urls \<noteq> [] then fetch_specs env (take 3 openapi_urls) None st
             else (None, st))
      in if openapi_urls = [] \<and> depth = 0
         then (let (common_specs, st2) = try_common_openapi_endpoints env base_url st1
               in (if common_specs \<noteq> []
                   then Some ((case specs1 of None \<Rightarrow> [] | Some xs \<Rightarrow> xs) @ common_specs)
                   else specs1, st2))
         else (specs1, st1))"

text \<open>Lines 281-303: the relevant links of the page, without duplicates; a page without
  links leaves the entry \<open>links\<close> empty.\<close>

definition collect_links :: "'w env \<Rightarrow> string \<Rightarrow> response \<Rightarrow> exn + string list" where
  "collect_links env base_url scraped_data =
     (case resp_links scraped_data of
        None \<Rightarrow> Inr []
      | Some ls \<Rightarrow>
          if ls \<noteq> []
          then (case api_related (check_bracketed_host env) base_url ls of
                  Inl e \<Rightarrow> Inl e
                | Inr api_related_links \<Rightarrow> Inr (list_of_set env api_related_links))
          else Inr [])"

text \<open>
  Lines 204-303: what the driver does with a fetched page before it descends.  The
  result carries the links and the specifications; its \<open>child_pages\<close> are still empty.
  An exception of \<open>urlparse\<close>, \<open>urljoin\<close>, \<open>clean_url\<close> or \<open>is_api_related_link\<close> leaves
  the block, with the requests issued until then.
\<close>

definition process_page :: "'w env \<Rightarrow> string \<Rightarrow> int \<Rightarrow> response \<Rightarrow> 'w state \<Rightarrow> (exn + page_result) \<times> 'w state" where
  "process_page env url depth scraped_data st =
     (case base_url_of (check_bracketed_host env) url of
        Inl e \<Rightarrow> (Inl e, st)
      | Inr base_url \<Rightarrow>
         (let contents = \<lparr>markdown = resp_markdown scraped_data, html = resp_html scraped_data,
                          screenshot = (if \<not> is_pdf url then resp_screenshot scraped_data
                                        else None)\<rparr>
          in if is_pdf url then (Inr (Page url contents [] [] None), st)
             else
              (case (case resp_html scraped_data of
                       None \<Rightarrow> Inr []
                     | Some h \<Rightarrow>
                         if h \<noteq> []
                         then find_embedded_specs (check_bracketed_host env) h base_url
                         else Inr []) of
                 Inl e \<Rightarrow> (Inl e, st)
               | Inr openapi_urls \<Rightarrow>
                  (case locate_specs env depth base_url openapi_urls st of
                     (specs, st1) \<Rightarrow>
                       (case collect_links env base_url scraped_data of
                          Inl e \<Rightarrow> (Inl e, st1)
                        | Inr api_related_links \<Rightarrow>
                            (Inr (Page url contents api_related_links [] specs), st1))))))"

text \<open>Lines 321-351: the handler of the \<open>try\<close> block, with the single retry of a PDF.\<close>

definition handle_failure :: "'w env \<Rightarrow> string \<Rightarrow> exn \<Rightarrow> 'w state \<Rightarrow> page_result \<times> 'w state" where
  "handle_failure env url e st =
     (if is_pdf url \<and> (sublist ''timeout'' (lower e) \<or> sublist ''internal server error'' (lower e))
      then (case fetch env RetryFetch (retry_request url) st of
              (Inr (Some retry_data), st1) \<Rightarrow>
                (Page url \<lparr>markdown = resp_markdown retry_data, html = resp_html retry_data,
                           screenshot = None\<rparr> [] [] None, st1)
            | (_, st1) \<Rightarrow> (Empty, st1))
      else (Empty, st))"

fun set_child_pages :: "page_result \<Rightarrow> page_result list \<Rightarrow> page_result" where
  "set_child_pages Empty cs = Empty"
| "set_child_pages (Page u c ls _ specs) cs = Page u c ls cs specs"

text \<open>
  \<open>extract_site_content\<close>, lines 147-351, with the loop of lines 312-317 over the pages to
  explore as \<open>explore_pages\<close>.  The links a fetched page is left with are its \<open>links\<close>
  entry, which is empty when the page came without links.
\<close>

function extract_site_content :: "'w env \<Rightarrow> string \<Rightarrow> int \<Rightarrow> int \<Rightarrow> 'w state \<Rightarrow> page_result \<times> 'w state"
  and explore_pages :: "'w env \<Rightarrow> string list \<Rightarrow> int \<Rightarrow> int \<Rightarrow> 'w state \<Rightarrow> page_result list \<times> 'w state"
where
  "extract_site_content env url depth max_depth st =
     (if depth > max_depth \<or> url \<in> visited_urls st then (Empty, st)
      else
        (case scrape_page env url (st\<lparr>visited_urls := insert url (visited_urls st)\<rparr>) of
           (Inl e, st1) \<Rightarrow> handle_failure env url e st1
         | (Inr scraped_data, st1) \<Rightarrow>
             (case process_page env url depth scraped_data st1 of
                (Inl e, st2) \<Rightarrow> handle_failure env url e st2
              | (Inr results, st2) \<Rightarrow>
                  if depth < max_depth \<and> page_links results \<noteq> []
                  then (case explore_pages env
                               (take 3 (filter (\<lambda>link. link \<noteq> url) (page_links results)))
                               (depth + 1) max_depth st2 of
                          (children, st3) \<Rightarrow> (set_child_pages results children, st3))
                  else (results, st2))))"
| "explore_pages env [] depth max_depth st = ([], st)"
| "explore_pages env (child_url # relevant_links) depth max_depth st =
     (case extract_site_content env child_url depth max_depth st of
        (child_content, st1) \<Rightarrow>
          (case explore_pages env relevant_links depth max_depth st1 of
             (children, st2) \<Rightarrow>
               ((if child_content \<noteq> Empty then [child_content] else []) @ children, st2)))"
  by pat_completeness auto
termination
  by (relation "measure (\<lambda>x. case x of
          Inl (env, url, depth, max_depth, st) \<Rightarrow> 5 * nat (max_depth - depth + 1)
        | Inr (env, urls, depth, max_depth, st) \<Rightarrow> 5 * nat (max_depth - depth + 1) + 1 + length urls)")
     auto

text \<open>A top-level invocation, as \<open>main\<close> makes it: depth 0 and a fresh visited set.\<close>

definition crawl :: "'w env \<Rightarrow> string \<Rightarrow> int \<Rightarrow> 'w \<Rightarrow> page_result \<times> 'w state" where
  "crawl env url max_depth w =
     extract_site_content env url 0 max_depth \<lparr>visited_urls = {}, world = w, trace = []\<rparr>"

section \<open>Observations on a crawl\<close>

text \<open>The crawl targets of a trace: the URLs of the main fetches, in order.\<close>

definition main_targets :: "(site \<times> request) list \<Rightarrow> string list" where
  "main_targets tr = map (\<lambda>(s, rq). req_url rq) (filter (\<lambda>(s, rq). s = MainFetch) tr)"

text \<open>The invariant of the visited set: every crawl target so far is in it, and no URL
  was a crawl target twice.\<close>

definition crawl_inv :: "'w state \<Rightarrow> bool" where
  "crawl_inv st \<longleftrightarrow>
     set (main_targets (trace st)) \<subseteq> visited_urls st \<and> distinct (main_targets (trace st))"

declare extract_site_content.simps [simp del]

text \<open>The requests issued for specification discovery.\<close>

definition discovery_fetches :: "(site \<times> request) list \<Rightarrow> (site \<times> request) list" where
  "discovery_fetches tr = filter (\<lambda>(s, rq). s = SpecFetch \<or> s = ProbeFetch) tr"

definition probe_fetches :: "(site \<times> request) list \<Rightarrow> (site \<times> request) list" where
  "probe_fetches tr = filter (\<lambda>(s, rq). s = ProbeFetch) tr"

text \<open>A recorded specification has non-empty markdown or HTML.\<close>

definition recorded :: "spec_candidate \<Rightarrow> bool" where
  "recorded s \<longleftrightarrow> truthy (spec_markdown s) \<or> truthy (spec_html s)"

text \<open>The fan-out cap on a result tree: every node has at most three child pages, and
  they are pages of the first three links of the node other than its own URL, in order.\<close>

fun capped :: "page_result \<Rightarrow> bool" where
  "capped Empty = True"
| "capped (Page u c ls cs specs) =
     (length cs \<le> 3
      \<and> subseq (map page_url cs) (take 3 (filter (\<lambda>link. link \<noteq> u) ls))
      \<and> list_all capped cs)"

text \<open>The number of nodes of the full ternary tree of a given height.\<close>

fun fetch_bound :: "nat \<Rightarrow> nat" where
  "fetch_bound 0 = 1"
| "fetch_bound (Suc n) = 1 + 3 * fetch_bound n"

text \<open>The answers of the scraper to a sequence of requests, from a given world.\<close>

fun replay :: "'w env \<Rightarrow> 'w \<Rightarrow> request list \<Rightarrow> (exn + response option) list" where
  "replay env w [] = []"
| "replay env w (rq # rqs) = (case scrape_url env w rq of (r, w') \<Rightarrow> r # replay env w' rqs)"

text \<open>The value of the key \<open>openapi_specs\<close> is absent, or a non-empty list of recorded
  specifications.\<close>

definition specs_ok :: "spec_candidate list option \<Rightarrow> bool" where
  "specs_ok x = (case x of None \<Rightarrow> True | Some xs \<Rightarrow> xs \<noteq> [] \<and> list_all recorded xs)"

section \<open>Example sites\<close>

text \<open>Two pages that link to each other.\<close>

definition cycle_site :: "unit env" where
  "cycle_site =
     \<lparr>api_key = Some ''key'',
      scrape_url = (\<lambda>w rq.
        (if req_url rq = ''https://x.com/docs/a''
         then Inr (Some \<lparr>resp_markdown = Some ''page A'', resp_html = None,
                         resp_links = Some [''https://x.com/docs/b''], resp_screenshot = None\<rparr>)
         else if req_url rq = ''https://x.com/docs/b''
         then Inr (Some \<lparr>resp_markdown = Some ''page B'', resp_html = None,
                         resp_links = Some [''https://x.com/docs/a''], resp_screenshot = None\<rparr>)
         else Inl ''404 not found'', w)),
      list_of_set = remdups,
      check_bracketed_host = (\<lambda>_. None)\<rparr>"

text \<open>A root page with five relevant links to pages without links.\<close>

definition fanout_site :: "unit env" where
  "fanout_site =
     \<lparr>api_key = Some ''key'',
      scrape_url = (\<lambda>w rq.
        (if req_url rq = ''https://x.com/docs''
         then Inr (Some \<lparr>resp_markdown = Some ''root'', resp_html = None,
                         resp_links = Some [''/api/one'', ''/api/two'', ''/api/three'',
                                            ''/api/four'', ''/api/five''],
                         resp_screenshot = None\<rparr>)
         else if prefix ''https://x.com/api/'' (req_url rq)
         then Inr (Some \<lparr>resp_markdown = Some ''child'', resp_html = None,
                         resp_links = None, resp_screenshot = None\<rparr>)
         else Inl ''404 not found'', w)),
      list_of_set = remdups,
      check_bracketed_host = (\<lambda>_. None)\<rparr>"

text \<open>A service that times out on its first request and answers every later one; the
  world counts the requests.\<close>

definition pdf_site :: "nat env" where
  "pdf_site =
     \<lparr>api_key = Some ''key'',
      scrape_url = (\<lambda>w rq.
        (if w = 0 then Inl ''Request Timeout''
         else Inr (Some \<lparr>resp_markdown = Some ''text of the document'', resp_html = None,
                         resp_links = Some [''/api/more''], resp_screenshot = None\<rparr>),
         Suc w)),
      list_of_set = remdups,
      check_bracketed_host = (\<lambda>_. None)\<rparr>"

text \<open>A site that serves a specification at \<open>/openapi.json\<close> and a root page without
  links.\<close>

definition spec_site :: "unit env" where
  "spec_site =
     \<lparr>api_key = Some ''key'',
      scrape_url = (\<lambda>w rq.
        (if req_url rq = ''https://x.com''
         then Inr (Some \<lparr>resp_markdown = Some ''welcome'', resp_html = Some ''<p>welcome</p>'',
                         resp_links = None, resp_screenshot = None\<rparr>)
         else if req_url rq = ''https://x.com/openapi.json''
         then Inr (Some \<lparr>resp_markdown = Some ''{}'', resp_html = None,
                         resp_links = None, resp_screenshot = None\<rparr>)
         else Inl ''404 not found'', w)),
      list_of_set = remdups,
      check_bracketed_host = (\<lambda>_. None)\<rparr>"

section \<open>The language of a pattern\<close>



section \<open>The parts of an http URL\<close>

text \<open>The characters that \<open>_splitnetloc\<close> leaves in the network location: all but
  \<open>/\<close>, \<open>?\<close> and \<open>#\<close>.\<close>

definition host_char :: "char \<Rightarrow> bool" where
  "host_char c \<longleftrightarrow> c \<noteq> CHR ''/'' \<and> c \<noteq> CHR ''?'' \<and> c \<noteq> CHR ''#''"

text \<open>What \<open>urlsplit\<close> makes of the text \<open>t\<close> behind \<open>scheme://\<close>: the network location
  runs up to the first \<open>/\<close>, \<open>?\<close> or \<open>#\<close>, the fragment starts behind the first \<open>#\<close> of
  the rest and the query behind the first \<open>?\<close> before it.\<close>

definition split_of :: "(string \<Rightarrow> exn option) \<Rightarrow> string \<Rightarrow> string \<Rightarrow> exn + split_result" where
  "split_of chk sch t =
     (case check_netloc_brackets chk (takeWhile host_char t) of
           Some e \<Rightarrow> Inl e
         | None \<Rightarrow> Inr \<lparr>s_scheme = sch, s_netloc = takeWhile host_char t,
                         s_path = takeWhile (\<lambda>c. c \<noteq> CHR ''?'')
                                    (takeWhile (\<lambda>c. c \<noteq> CHR ''#'') (dropWhile host_char t)),
                         s_query = drop 1 (dropWhile (\<lambda>c. c \<noteq> CHR ''?'')
                                    (takeWhile (\<lambda>c. c \<noteq> CHR ''#'') (dropWhile host_char t))),
                         s_fragment = drop 1 (dropWhile (\<lambda>c. c \<noteq> CHR ''#'')
                                    (dropWhile host_char t))\<rparr>)"

text \<open>The path among these parts.\<close>

definition path_of :: "string \<Rightarrow> string" where
  "path_of t = takeWhile (\<lambda>c. c \<noteq> CHR ''?'') (takeWhile (\<lambda>c. c \<noteq> CHR ''#'') (dropWhile host_char t))"

text \<open>The URLs of the requests of a trace, in order, whatever place issued them.\<close>

definition fetched_urls :: "(site \<times> request) list \<Rightarrow> string list" where
  "fetched_urls tr = map (\<lambda>(s, rq). req_url rq) tr"

section \<open>Properties of the URL classifier\<close>




text \<open>
  Claim C5: for a URL that passes the same-domain test, \<open>is_api_related_link\<close> returns
  false when the lowercased URL contains a negative keyword, also when it contains a
  positive one, and otherwise returns true exactly when the lowercased URL contains a
  positive keyword; \<open>https://x.com/blog/api-guide\<close> is not relevant to \<open>https://x.com\<close>
  and \<open>https://x.com/docs/api/reference\<close> is.
\<close>

theorem is_api_related_link_keywords:
  assumes "urlparse chk base_url [] = Inr b" and "urlparse chk url [] = Inr u"
    and "sublist (netloc b) (netloc u) \<or> sublist (netloc u) (netloc b)"
  shows "is_api_related_link chk url base_url =
           Inr (\<not> (\<exists>keyword \<in> set negative_keywords. sublist keyword (lower url))
                \<and> (\<exists>keyword \<in> set api_keywords. sublist keyword (lower url)))
         \<and> is_api_related_link chk ''https://x.com/blog/api-guide'' ''https://x.com'' = Inr False
         \<and> is_api_related_link chk ''https://x.com/docs/api/reference'' ''https://x.com''
             = Inr True"
proof -
  have "is_api_related_link chk ''https://x.com/blog/api-guide'' ''https://x.com'' = Inr False"
    by code_simp
  moreover have "is_api_related_link chk ''https://x.com/docs/api/reference'' ''https://x.com''
      = Inr True"
    by code_simp
  moreover have "is_api_related_link chk url base_url =
           Inr (\<not> (\<exists>keyword \<in> set negative_keywords. sublist keyword (lower url))
                \<and> (\<exists>keyword \<in> set api_keywords. sublist keyword (lower url)))"
    using assms by (auto simp: is_api_related_link_def Let_def list_ex_iff)
  ultimately show ?thesis by simp
qed

theorem is_api_related_link_keywords_witness:
  "urlparse (\<lambda>_. None) ''https://x.com'' [] =
      Inr \<lparr>scheme = ''https'', netloc = ''x.com'', path = [], params = [], query = [],
            fragment = []\<rparr>
   \<and> urlparse (\<lambda>_. None) ''https://x.com/blog/api-guide'' [] =
      Inr \<lparr>scheme = ''https'', netloc = ''x.com'', path = ''/blog/api-guide'', params = [],
            query = [], fragment = []\<rparr>
   \<and> sublist ''x.com'' ''x.com''
   \<and> (\<exists>keyword \<in> set negative_keywords. sublist keyword (lower ''https://x.com/blog/api-guide''))
   \<and> (\<exists>keyword \<in> set api_keywords. sublist keyword (lower ''https://x.com/blog/api-guide''))
   \<and> is_api_related_link (\<lambda>_. None) ''https://x.com/blog/api-guide'' ''https://x.com'' = Inr False"
proof -
  have b: "urlparse (\<lambda>_. None) ''https://x.com'' [] =
      Inr \<lparr>scheme = ''https'', netloc = ''x.com'', path = [], params = [], query = [],
            fragment = []\<rparr>"
    by code_simp
  have u: "urlparse (\<lambda>_. None) ''https://x.com/blog/api-guide'' [] =
      Inr \<lparr>scheme = ''https'', netloc = ''x.com'', path = ''/blog/api-guide'', params = [],
            query = [], fragment = []\<rparr>"
    by code_simp
  have neg: "\<exists>keyword \<in> set negative_keywords.
      sublist keyword (lower ''https://x.com/blog/api-guide'')"
    by code_simp
  have pos: "\<exists>keyword \<in> set api_keywords.
      sublist keyword (lower ''https://x.com/blog/api-guide'')"
    by code_simp
  have "is_api_related_link (\<lambda>_. None) ''https://x.com/blog/api-guide'' ''https://x.com''
      = Inr False"
    using is_api_related_link_keywords [OF b u] neg by simp
  with b u neg pos show ?thesis by simp
qed

section \<open>Properties of the URL normalizer\<close>

lemma re_sub_no_bracket:
  "CHR ''['' \<notin> set s \<Longrightarrow> re_sub_group False markdown_link 2 0 s = s"
proof (induction s)
  case Nil
  then show ?case by simp
next
  case (Cons c cs)
  then have "match_here False markdown_link (c # cs) = None"
    by (auto simp add: match_here_def markdown_link_def)
  with Cons show ?case by simp
qed

lemma scheme_facts:
  "\<not> c0_control_or_space CHR ''h''"
  "\<not> unsafe_url_byte CHR ''h''" "\<not> unsafe_url_byte CHR ''t''" "\<not> unsafe_url_byte CHR ''p''"
  "\<not> unsafe_url_byte CHR ''s''" "\<not> unsafe_url_byte CHR '':''" "\<not> unsafe_url_byte CHR ''/''"
  "is_ascii_alpha CHR ''h''"
  "list_all (\<lambda>c. c \<in> set scheme_chars) ''http''" "list_all (\<lambda>c. c \<in> set scheme_chars) ''https''"
  "lower ''http'' = ''http''" "lower ''https'' = ''https''"
  "CHR ''h'' \<in> set scheme_chars" "CHR ''t'' \<in> set scheme_chars"
  "CHR ''p'' \<in> set scheme_chars" "CHR ''s'' \<in> set scheme_chars"
  by (simp_all add: c0_control_or_space_def unsafe_url_byte_def is_ascii_alpha_def
      scheme_chars_def lower_def lower_char_def)

lemma splitnetloc_slashes:
  "splitnetloc (CHR ''/'' # CHR ''/'' # t) = (takeWhile host_char t, dropWhile host_char t)"
proof -
  have "(\<lambda>c. c \<notin> set ''/?#'') = host_char"
    by (auto simp: host_char_def fun_eq_iff)
  then show ?thesis by (simp add: splitnetloc_def)
qed

lemma urlsplit_http:
  "urlsplit chk (''http://'' @ t0) [] = split_of chk ''http'' (filter (\<lambda>c. \<not> unsafe_url_byte c) t0)"
  by (simp add: urlsplit_def Let_def scheme_facts splitnetloc_slashes split_of_def
      split: option.splits)

lemma urlsplit_https:
  "urlsplit chk (''https://'' @ t0) [] = split_of chk ''https'' (filter (\<lambda>c. \<not> unsafe_url_byte c) t0)"
  by (simp add: urlsplit_def Let_def scheme_facts splitnetloc_slashes split_of_def
      split: option.splits)

lemma urlsplit_scheme:
  assumes "sch = ''http'' \<or> sch = ''https''"
  shows "urlsplit chk (sch @ ''://'' @ t0) [] = split_of chk sch (filter (\<lambda>c. \<not> unsafe_url_byte c) t0)"
  using assms urlsplit_http [of chk t0] urlsplit_https [of chk t0] by auto

lemma path_of_chars:
  "c \<in> set (path_of t) \<Longrightarrow> c \<in> set t \<and> c \<noteq> CHR ''?'' \<and> c \<noteq> CHR ''#''"
proof -
  assume "c \<in> set (path_of t)"
  then have 1: "c \<in> set (takeWhile (\<lambda>c. c \<noteq> CHR ''#'') (dropWhile host_char t)) \<and> c \<noteq> CHR ''?''"
    unfolding path_of_def by (rule set_takeWhileD)
  then have "c \<in> set (takeWhile (\<lambda>c. c \<noteq> CHR ''#'') (dropWhile host_char t))"
    by (rule conjunct1)
  then have 2: "c \<in> set (dropWhile host_char t) \<and> c \<noteq> CHR ''#''"
    by (rule set_takeWhileD)
  then have "c \<in> set (dropWhile host_char t)" by (rule conjunct1)
  then have "c \<in> set t" by (rule set_dropWhileD)
  with 1 2 show ?thesis by (simp only: simp_thms)
qed

lemma path_of_head: "path_of t = [] \<or> hd (path_of t) = CHR ''/''"
proof (cases "dropWhile host_char t")
  case Nil
  show ?thesis by (simp only: path_of_def Nil) simp
next
  case (Cons c cs)
  then have "\<not> host_char c" by (metis hd_dropWhile list.sel(1) list.distinct(1))
  then show ?thesis
    by (auto simp: path_of_def Cons host_char_def)
qed

lemma takeWhile_host:
  assumes "\<forall>c \<in> set xs. host_char c" and "ys = [] \<or> hd ys = CHR ''/''"
  shows "takeWhile host_char (xs @ ys) = xs" and "dropWhile host_char (xs @ ys) = ys"
proof -
  from assms(2) have "takeWhile host_char ys = []" "dropWhile host_char ys = ys"
    by (cases ys; auto simp: host_char_def)+
  with assms(1) show "takeWhile host_char (xs @ ys) = xs" "dropWhile host_char (xs @ ys) = ys"
    by (simp_all add: takeWhile_append2 dropWhile_append2)
qed

lemma clean_url_scheme:
  assumes "re_sub_group False markdown_link 2 0 url = sch @ ''://'' @ t0"
    and "sch = ''http'' \<or> sch = ''https''" and "CHR '';'' \<notin> set t0"
  shows "clean_url chk url =
     (let t = filter (\<lambda>c. \<not> unsafe_url_byte c) t0;
          c = sch @ ''://'' @ takeWhile host_char t @ path_of t
      in case check_netloc_brackets chk (takeWhile host_char t) of
           Some e \<Rightarrow> Inl e
         | None \<Rightarrow> Inr (if suffix ''/'' c \<and> length c > 8 then butlast c else c))"
proof -
  let ?t = "filter (\<lambda>c. \<not> unsafe_url_byte c) t0"
  let ?u = "re_sub_group False markdown_link 2 0 url"
  from assms(3) have nosemi: "CHR '';'' \<notin> set (path_of ?t)"
    using path_of_chars [of "CHR '';''" ?t] by auto
  have sp: "urlsplit chk ?u [] = split_of chk sch ?t"
    unfolding assms(1) by (rule urlsplit_scheme [OF assms(2)])
  show ?thesis
  proof (cases "check_netloc_brackets chk (takeWhile host_char ?t)")
    case (Some e)
    then have "urlparse chk ?u [] = Inl e"
      by (simp add: urlparse_def sp split_of_def)
    with Some show ?thesis by (simp add: clean_url_def Let_def)
  next
    case None
    then have "\<exists>q f. urlparse chk ?u [] =
        Inr \<lparr>scheme = sch, netloc = takeWhile host_char ?t, path = path_of ?t, params = [],
              query = q, fragment = f\<rparr>"
      using nosemi by (simp add: urlparse_def sp split_of_def Let_def path_of_def)
    with None show ?thesis by (auto simp add: clean_url_def Let_def)
  qed
qed

text \<open>
  Claim C6, as stated: \<open>clean_url\<close> is idempotent on every URL string.  The normalizer
  removes one trailing slash, so a URL that ends in two slashes loses one at each
  application: \<open>https://x.com/a//\<close> becomes \<open>https://x.com/a/\<close>, which becomes
  \<open>https://x.com/a\<close>.
\<close>

theorem clean_url_not_idempotent_counterexample:
  "clean_url (\<lambda>_. None) ''https://x.com/a//'' = Inr ''https://x.com/a/''
   \<and> clean_url (\<lambda>_. None) ''https://x.com/a/'' = Inr ''https://x.com/a''
   \<and> ''https://x.com/a/'' \<noteq> ''https://x.com/a''"
  by code_simp

text \<open>
  Claim C6, amended: let \<open>U\<close> be a URL that, once its markdown links are replaced by their
  targets, starts with \<open>http://\<close> or \<open>https://\<close> and contains neither \<open>[\<close> nor \<open>;\<close>, and
  let \<open>clean_url\<close> return \<open>V\<close> for it.  Then \<open>clean_url\<close> applied to \<open>V\<close> removes one
  trailing slash when \<open>V\<close> ends in a slash and is longer than 8 characters, and returns \<open>V\<close>
  otherwise; so \<open>clean_url\<close> is idempotent at \<open>U\<close> exactly when \<open>V\<close> does not end in a slash
  or has at most 8 characters.
\<close>

theorem clean_url_idempotent_http:
  assumes "clean_url chk url = Inr v"
    and "prefix ''http://'' (re_sub_group False markdown_link 2 0 url)
         \<or> prefix ''https://'' (re_sub_group False markdown_link 2 0 url)"
    and "CHR ''['' \<notin> set (re_sub_group False markdown_link 2 0 url)"
    and "CHR '';'' \<notin> set (re_sub_group False markdown_link 2 0 url)"
  shows "clean_url chk v = Inr (if suffix ''/'' v \<and> 8 < length v then butlast v else v)
         \<and> (clean_url chk v = Inr v \<longleftrightarrow> \<not> (suffix ''/'' v \<and> 8 < length v))"
proof -
  let ?u = "re_sub_group False markdown_link 2 0 url"
  obtain sch t0 where u: "?u = sch @ ''://'' @ t0"
    and sch: "sch = ''http'' \<or> sch = ''https''"
  proof -
    from assms(2) consider z where "?u = ''http://'' @ z" | z where "?u = ''https://'' @ z"
      unfolding prefix_def by blast
    then show ?thesis
    proof cases
      case 1
      then have "?u = ''http'' @ ''://'' @ z" by simp
      then show ?thesis using that by blast
    next
      case 2
      then have "?u = ''https'' @ ''://'' @ z" by simp
      then show ?thesis using that by blast
    qed
  qed
  define t where "t = filter (\<lambda>c. \<not> unsafe_url_byte c) t0"
  define nl where "nl = takeWhile host_char t"
  define p where "p = path_of t"
  define c where "c = sch @ ''://'' @ nl @ p"
  from assms(4) u have semi: "CHR '';'' \<notin> set t0" by simp
  from assms(3) u have brk: "CHR ''['' \<notin> set t0" by simp
  from clean_url_scheme [OF u sch semi, of chk] assms(1)
  have chk: "check_netloc_brackets chk nl = None"
    and v: "v = (if suffix ''/'' c \<and> length c > 8 then butlast c else c)"
    by (auto simp: Let_def t_def nl_def p_def c_def split: option.splits)
  have nl_host: "\<forall>x \<in> set nl. host_char x"
    unfolding nl_def by (meson set_takeWhileD)
  have t_sub: "set t \<subseteq> set t0" "\<forall>x \<in> set t. \<not> unsafe_url_byte x"
    by (auto simp: t_def)
  have nl_sub: "set nl \<subseteq> set t" unfolding nl_def by (meson set_takeWhileD subsetI)
  have p_sub: "set p \<subseteq> set t" "\<forall>x \<in> set p. x \<noteq> CHR ''?'' \<and> x \<noteq> CHR ''#''"
    unfolding p_def using path_of_chars by blast+
  have p_head: "p = [] \<or> hd p = CHR ''/''" unfolding p_def by (rule path_of_head)
  have len_sch: "length (sch @ ''://'') \<le> 8" using sch by auto
  obtain p' where v': "v = sch @ ''://'' @ nl @ p'" and p': "set p' \<subseteq> set p"
    and p'_head: "p' = [] \<or> hd p' = CHR ''/''"
  proof (cases "suffix ''/'' c \<and> length c > 8")
    case False
    with v have "v = c" by simp
    then have "v = sch @ ''://'' @ nl @ p" by (simp only: c_def)
    with p_head that show ?thesis by blast
  next
    case True
    have "length c = length (sch @ ''://'') + length (nl @ p)" by (simp add: c_def)
    with True len_sch have ne: "nl @ p \<noteq> []" by auto
    from True have "last c = CHR ''/''" by (auto simp: suffix_def)
    moreover have "c = (sch @ ''://'') @ (nl @ p)" by (simp add: c_def)
    ultimately have l: "last (nl @ p) = CHR ''/''" using ne by (simp only: last_append if_False)
    have pn: "p \<noteq> []"
    proof
      assume "p = []"
      with ne l have "nl \<noteq> []" "last nl = CHR ''/''" by simp_all
      then have "CHR ''/'' \<in> set nl" by (metis last_in_set)
      with nl_host show False by (auto simp: host_char_def)
    qed
    from True v have "v = butlast c" by simp
    also have "c = (sch @ ''://'' @ nl) @ p" by (simp add: c_def)
    also from pn have "butlast ((sch @ ''://'' @ nl) @ p) = (sch @ ''://'' @ nl) @ butlast p"
      by (simp only: butlast_append if_False)
    finally have 1: "v = sch @ ''://'' @ nl @ butlast p" by simp
    have 2: "set (butlast p) \<subseteq> set p" by (meson in_set_butlastD subsetI)
    have 3: "butlast p = [] \<or> hd (butlast p) = CHR ''/''"
    proof (cases p)
      case Nil
      then show ?thesis by simp
    next
      case (Cons a as)
      with p_head show ?thesis by (cases as) auto
    qed
    from 1 2 3 that show ?thesis by blast
  qed
  define t1 where "t1 = nl @ p'"
  have t1_sub: "set t1 \<subseteq> set t" using nl_sub p' p_sub(1) by (auto simp: t1_def)
  have re: "re_sub_group False markdown_link 2 0 v = sch @ ''://'' @ t1"
  proof -
    from sch have "CHR ''['' \<notin> set (sch @ ''://'')" by auto
    with t1_sub t_sub(1) brk have "CHR ''['' \<notin> set v"
      by (auto simp: v' t1_def)
    from re_sub_no_bracket [OF this] show ?thesis by (simp add: v' t1_def)
  qed
  have semi1: "CHR '';'' \<notin> set t1" using t1_sub t_sub(1) semi by auto
  have f: "filter (\<lambda>c. \<not> unsafe_url_byte c) t1 = t1"
    using t1_sub t_sub(2) by (auto simp: filter_id_conv)
  have tw: "takeWhile host_char t1 = nl" "dropWhile host_char t1 = p'"
    unfolding t1_def by (rule takeWhile_host [OF nl_host p'_head])+
  have "\<forall>x \<in> set p'. x \<noteq> CHR ''#''" "\<forall>x \<in> set p'. x \<noteq> CHR ''?''"
    using p' p_sub(2) by blast+
  then have tp: "takeWhile (\<lambda>c. c \<noteq> CHR ''#'') p' = p'" "takeWhile (\<lambda>c. c \<noteq> CHR ''?'') p' = p'"
    by (simp_all only: takeWhile_eq_all_conv)
  have po: "path_of t1 = p'" by (simp only: path_of_def tw tp)
  note cs = clean_url_scheme [OF re sch semi1, of chk]
  note cs1 = cs [unfolded Let_def f tw po]
  have eq: "clean_url chk v = Inr (if suffix ''/'' v \<and> 8 < length v then butlast v else v)"
    using cs1 unfolding chk option.case v' .
  have "butlast v \<noteq> v" if "suffix ''/'' v"
  proof -
    from that have "v \<noteq> []" by (auto simp: suffix_def)
    then have "length (butlast v) \<noteq> length v" by (cases v) simp_all
    then show ?thesis by metis
  qed
  with eq show ?thesis by auto
qed

theorem clean_url_idempotent_http_witness:
  "clean_url (\<lambda>_. None) ''[docs](https://x.com/docs/?q=1#top)'' = Inr ''https://x.com/docs''
   \<and> re_sub_group False markdown_link 2 0 ''[docs](https://x.com/docs/?q=1#top)''
       = ''https://x.com/docs/?q=1#top''
   \<and> prefix ''https://'' ''https://x.com/docs/?q=1#top''
   \<and> CHR ''['' \<notin> set ''https://x.com/docs/?q=1#top''
   \<and> CHR '';'' \<notin> set ''https://x.com/docs/?q=1#top''
   \<and> \<not> suffix ''/'' ''https://x.com/docs''
   \<and> clean_url (\<lambda>_. None) ''https://x.com/docs'' = Inr ''https://x.com/docs''"
proof -
  have e: "clean_url (\<lambda>_. None) ''[docs](https://x.com/docs/?q=1#top)'' = Inr ''https://x.com/docs''"
    by code_simp
  have r: "re_sub_group False markdown_link 2 0 ''[docs](https://x.com/docs/?q=1#top)''
       = ''https://x.com/docs/?q=1#top''"
    by code_simp
  have p: "prefix ''https://'' ''https://x.com/docs/?q=1#top''" by simp
  have b: "CHR ''['' \<notin> set ''https://x.com/docs/?q=1#top''" by simp
  have s: "CHR '';'' \<notin> set ''https://x.com/docs/?q=1#top''" by simp
  have n: "\<not> suffix ''/'' ''https://x.com/docs''" by (simp add: suffix_def)
  have "clean_url (\<lambda>_. None) ''https://x.com/docs'' = Inr ''https://x.com/docs''"
    using clean_url_idempotent_http [OF e, THEN conjunct2] p b s n by (simp only: r simp_thms)
  with e r p b s n show ?thesis by (simp only: simp_thms)
qed

section \<open>Properties of the crawl driver\<close>

subsection \<open>What each step does to the state\<close>

lemma main_targets_append [simp]: "main_targets (xs @ ys) = main_targets xs @ main_targets ys"
  by (simp add: main_targets_def)

lemma fetch_state:
  "fetch env site rq st = (r, st') \<Longrightarrow>
     visited_urls st' = visited_urls st \<and> trace st' = trace st @ [(site, rq)]"
  by (auto simp: fetch_def split: prod.splits)

lemma probe_paths_state:
  "probe_paths env base_url ps st = (specs, st') \<Longrightarrow>
     visited_urls st' = visited_urls st
     \<and> trace st' = trace st @ map (\<lambda>p. (ProbeFetch, spec_request (base_url @ p))) ps"
proof (induction ps arbitrary: st specs st')
  case Nil
  then show ?case by simp
next
  case (Cons p ps)
  then show ?case
    by (auto simp: Let_def split: prod.splits dest!: fetch_state)
qed

lemma fetch_specs_state:
  "fetch_specs env us acc st = (specs, st') \<Longrightarrow>
     visited_urls st' = visited_urls st
     \<and> trace st' = trace st @ map (\<lambda>u. (SpecFetch, spec_request u)) us"
proof (induction us arbitrary: st acc specs st')
  case Nil
  then show ?case by simp
next
  case (Cons u us)
  then show ?case
    by (auto simp: Let_def split: prod.splits dest!: fetch_state)
qed

lemma locate_specs_state:
  "locate_specs env depth base_url openapi_urls st = (specs, st') \<Longrightarrow>
     visited_urls st' = visited_urls st
     \<and> trace st' = trace st @
          (if openapi_urls \<noteq> [] then map (\<lambda>u. (SpecFetch, spec_request u)) (take 3 openapi_urls)
           else if depth = 0 then map (\<lambda>p. (ProbeFetch, spec_request (base_url @ p))) common_paths
           else [])"
  by (auto simp: locate_specs_def try_common_openapi_endpoints_def Let_def
      split: prod.splits if_splits dest!: fetch_specs_state probe_paths_state)

lemma process_page_state:
  "process_page env url depth d st = (r, st') \<Longrightarrow>
     visited_urls st' = visited_urls st \<and> main_targets (trace st') = main_targets (trace st)"
  by (auto simp: process_page_def Let_def main_targets_def comp_def
      split: sum.splits prod.splits if_splits option.splits dest!: locate_specs_state)

lemma scrape_page_state:
  "scrape_page env url st = (r, st') \<Longrightarrow>
     visited_urls st' = visited_urls st
     \<and> (trace st' = trace st \<or> trace st' = trace st @ [(MainFetch, main_request url)])"
  by (auto simp: scrape_page_def split: if_splits prod.splits sum.splits option.splits dest!: fetch_state)

lemma handle_failure_state:
  "handle_failure env url e st = (r, st') \<Longrightarrow>
     visited_urls st' = visited_urls st \<and> main_targets (trace st') = main_targets (trace st)"
  by (auto simp: handle_failure_def main_targets_def split: if_splits prod.splits sum.splits option.splits dest!: fetch_state)



lemma req_url_main_request [simp]: "req_url (main_request url) = url"
  by (simp add: main_request_def)


lemma extract_site_content_cases [consumes 1, case_names skip failure leaf descend]:
  assumes "extract_site_content env url depth max_depth st = (r, st')"
  obtains
    "max_depth < depth \<or> url \<in> visited_urls st" "r = Empty" "st' = st"
  | e st1 where "\<not> (max_depth < depth \<or> url \<in> visited_urls st)"
      "scrape_page env url (st\<lparr>visited_urls := insert url (visited_urls st)\<rparr>) = (Inl e, st1)
       \<or> (\<exists>d st0. scrape_page env url (st\<lparr>visited_urls := insert url (visited_urls st)\<rparr>)
                      = (Inr d, st0)
                  \<and> process_page env url depth d st0 = (Inl e, st1))"
      "handle_failure env url e st1 = (r, st')"
  | d st1 where "\<not> (max_depth < depth \<or> url \<in> visited_urls st)"
      "scrape_page env url (st\<lparr>visited_urls := insert url (visited_urls st)\<rparr>) = (Inr d, st1)"
      "process_page env url depth d st1 = (Inr r, st')"
      "\<not> (depth < max_depth \<and> page_links r \<noteq> [])"
  | d st1 results st2 children where "\<not> (max_depth < depth \<or> url \<in> visited_urls st)"
      "scrape_page env url (st\<lparr>visited_urls := insert url (visited_urls st)\<rparr>) = (Inr d, st1)"
      "process_page env url depth d st1 = (Inr results, st2)"
      "depth < max_depth" "page_links results \<noteq> []"
      "explore_pages env (take 3 (filter (\<lambda>link. link \<noteq> url) (page_links results)))
         (depth + 1) max_depth st2 = (children, st')"
      "r = set_child_pages results children"
proof -
  note eq = assms [unfolded extract_site_content.simps [of env url depth max_depth st]]
  show ?thesis
  proof (cases "max_depth < depth \<or> url \<in> visited_urls st")
    case True
    with eq have "r = Empty" "st' = st" by auto
    with True that(1) show ?thesis by blast
  next
    case False
    obtain x st1 where sp:
      "scrape_page env url (st\<lparr>visited_urls := insert url (visited_urls st)\<rparr>) = (x, st1)"
      by (cases "scrape_page env url (st\<lparr>visited_urls := insert url (visited_urls st)\<rparr>)")
    show ?thesis
    proof (cases x)
      case (Inl e)
      with False sp eq have "handle_failure env url e st1 = (r, st')"
        by simp
      with False sp Inl that(2) show ?thesis by blast
    next
      case (Inr d)
      obtain y st2 where pp: "process_page env url depth d st1 = (y, st2)"
        by (cases "process_page env url depth d st1")
      show ?thesis
      proof (cases y)
        case (Inl e)
        with False sp Inr pp eq have "handle_failure env url e st2 = (r, st')"
          by simp
        with False sp Inr pp Inl that(2) show ?thesis by blast
      next
        case res: (Inr results)
        show ?thesis
        proof (cases "depth < max_depth \<and> page_links results \<noteq> []")
          case True
          obtain cs st3 where ex: "explore_pages env
                (take 3 (filter (\<lambda>link. link \<noteq> url) (page_links results)))
                (depth + 1) max_depth st2 = (cs, st3)"
            by (cases "explore_pages env
                (take 3 (filter (\<lambda>link. link \<noteq> url) (page_links results)))
                (depth + 1) max_depth st2")
          with False sp Inr pp res True eq
          have "r = set_child_pages results cs" "st' = st3"
            by simp_all
          with False sp Inr pp res True ex that(4) show ?thesis by blast
        next
          case F2: False
          with False sp Inr pp res eq have "r = results" "st' = st2"
            by auto
          with False sp Inr pp res F2 that(3) show ?thesis by blast
        qed
      qed
    qed
  qed
qed

lemma crawl_induct [case_names skip failure leaf descend nil cons]:
  fixes P :: "string \<Rightarrow> int \<Rightarrow> 'w state \<Rightarrow> bool"
    and Q :: "string list \<Rightarrow> int \<Rightarrow> 'w state \<Rightarrow> bool"
  assumes "\<And>url depth st.
        max_depth < depth \<or> url \<in> visited_urls st \<Longrightarrow>
        extract_site_content env url depth max_depth st = (Empty, st) \<Longrightarrow> P url depth st"
    and "\<And>url depth st e st1 r st'.
        \<not> (max_depth < depth \<or> url \<in> visited_urls st) \<Longrightarrow>
        scrape_page env url (st\<lparr>visited_urls := insert url (visited_urls st)\<rparr>) = (Inl e, st1)
         \<or> (\<exists>d st0. scrape_page env url (st\<lparr>visited_urls := insert url (visited_urls st)\<rparr>)
                      = (Inr d, st0)
                  \<and> process_page env url depth d st0 = (Inl e, st1)) \<Longrightarrow>
        handle_failure env url e st1 = (r, st') \<Longrightarrow>
        extract_site_content env url depth max_depth st = (r, st') \<Longrightarrow> P url depth st"
    and "\<And>url depth st d st1 r st'.
        \<not> (max_depth < depth \<or> url \<in> visited_urls st) \<Longrightarrow>
        scrape_page env url (st\<lparr>visited_urls := insert url (visited_urls st)\<rparr>) = (Inr d, st1) \<Longrightarrow>
        process_page env url depth d st1 = (Inr r, st') \<Longrightarrow>
        \<not> (depth < max_depth \<and> page_links r \<noteq> []) \<Longrightarrow>
        extract_site_content env url depth max_depth st = (r, st') \<Longrightarrow> P url depth st"
    and "\<And>url depth st d st1 results st2 children st'.
        \<not> (max_depth < depth \<or> url \<in> visited_urls st) \<Longrightarrow>
        scrape_page env url (st\<lparr>visited_urls := insert url (visited_urls st)\<rparr>) = (Inr d, st1) \<Longrightarrow>
        process_page env url depth d st1 = (Inr results, st2) \<Longrightarrow>
        depth < max_depth \<Longrightarrow> page_links results \<noteq> [] \<Longrightarrow>
        explore_pages env (take 3 (filter (\<lambda>link. link \<noteq> url) (page_links results)))
           (depth + 1) max_depth st2 = (children, st') \<Longrightarrow>
        Q (take 3 (filter (\<lambda>link. link \<noteq> url) (page_links results))) (depth + 1) st2 \<Longrightarrow>
        extract_site_content env url depth max_depth st = (set_child_pages results children, st') \<Longrightarrow>
        P url depth st"
    and "\<And>depth st. Q [] depth st"
    and "\<And>child_url relevant_links depth st child_content st1 children st2.
        extract_site_content env child_url depth max_depth st = (child_content, st1) \<Longrightarrow>
        P child_url depth st \<Longrightarrow>
        explore_pages env relevant_links depth max_depth st1 = (children, st2) \<Longrightarrow>
        Q relevant_links depth st1 \<Longrightarrow>
        explore_pages env (child_url # relevant_links) depth max_depth st =
          ((if child_content \<noteq> Empty then [child_content] else []) @ children, st2) \<Longrightarrow>
        Q (child_url # relevant_links) depth st"
  shows "P url depth st" and "Q urls depth st"
  using assms
proof (induction env url depth max_depth st and env urls depth max_depth st
    rule: extract_site_content_explore_pages.induct)
  case (1 env url depth max_depth st)
  obtain r st' where e: "extract_site_content env url depth max_depth st = (r, st')"
    by (cases "extract_site_content env url depth max_depth st")
  from e show ?case
  proof (cases rule: extract_site_content_cases)
    case skip
    with "1.prems"(1) e show ?thesis by simp
  next
    case (failure e1 st1)
    with "1.prems"(2) e show ?thesis by blast
  next
    case (leaf d st1)
    with "1.prems"(3) e show ?thesis by blast
  next
    case (descend d st1 results st2 children)
    have "Q (take 3 (filter (\<lambda>link. link \<noteq> url) (page_links results))) (depth + 1) st2"
      using "1.IH" [OF descend(1) descend(2) [symmetric] refl descend(3) [symmetric] refl]
        descend(4,5) "1.prems" by blast
    with descend "1.prems"(4) e show ?thesis by blast
  qed
next
  case (2 env depth max_depth st)
  then show ?case by simp
next
  case (3 env child_url relevant_links depth max_depth st)
  obtain c st1 where e1: "extract_site_content env child_url depth max_depth st = (c, st1)"
    by (cases "extract_site_content env child_url depth max_depth st")
  obtain cs st2 where e2: "explore_pages env relevant_links depth max_depth st1 = (cs, st2)"
    by (cases "explore_pages env relevant_links depth max_depth st1")
  have p: "P child_url depth st"
    using "3.IH"(1) "3.prems" by blast
  have q: "Q relevant_links depth st1"
    using "3.IH"(2) [OF e1 [symmetric]] "3.prems" by blast
  from e1 e2 have "explore_pages env (child_url # relevant_links) depth max_depth st =
      ((if c \<noteq> Empty then [c] else []) @ cs, st2)"
    by simp
  with "3.prems"(6) [OF e1 p e2 q] show ?case by simp
qed

lemma scrape_page_inv:
  assumes "scrape_page env url (st\<lparr>visited_urls := insert url (visited_urls st)\<rparr>) = (r, st1)"
    and "crawl_inv st" and "url \<notin> visited_urls st"
  shows "crawl_inv st1 \<and> visited_urls st1 = insert url (visited_urls st)"
proof -
  from scrape_page_state [OF assms(1)]
  have v: "visited_urls st1 = insert url (visited_urls st)"
    and t: "trace st1 = trace st \<or> trace st1 = trace st @ [(MainFetch, main_request url)]"
    by simp_all
  from assms(2,3) have "url \<notin> set (main_targets (trace st))"
    by (auto simp: crawl_inv_def)
  moreover have "main_targets [(MainFetch, main_request url)] = [url]"
    by (simp add: main_targets_def)
  ultimately show ?thesis using t v assms(2)
    by (auto simp: crawl_inv_def)
qed

lemma crawl_inv_step:
  assumes "crawl_inv st" and "visited_urls st' = visited_urls st"
    and "main_targets (trace st') = main_targets (trace st)"
  shows "crawl_inv st'"
  using assms by (simp add: crawl_inv_def)

lemma extract_site_content_inv:
  "extract_site_content env url depth max_depth st = (r, st') \<Longrightarrow> crawl_inv st \<Longrightarrow>
     crawl_inv st' \<and> visited_urls st \<subseteq> visited_urls st'"
  and explore_pages_inv:
  "explore_pages env urls depth max_depth st = (rs, st') \<Longrightarrow> crawl_inv st \<Longrightarrow>
     crawl_inv st' \<and> visited_urls st \<subseteq> visited_urls st'"
proof (induction url depth st and urls depth st arbitrary: r st' and rs st'
    rule: crawl_induct [where env = env and max_depth = max_depth])
  case (skip url depth st)
  then show ?case by simp
next
  case (failure url depth st e st1 r0 st0)
  from failure.hyps(2) obtain x s0 where
    sp: "scrape_page env url (st\<lparr>visited_urls := insert url (visited_urls st)\<rparr>) = (x, s0)"
    and st1: "visited_urls st1 = visited_urls s0" "main_targets (trace st1) = main_targets (trace s0)"
    by (auto dest: process_page_state)
  from scrape_page_inv [OF sp failure.prems(2)] failure.hyps(1)
  have "crawl_inv s0" "visited_urls s0 = insert url (visited_urls st)" by simp_all
  with st1 handle_failure_state [OF failure.hyps(3)] failure.hyps(4) failure.prems(1) show ?case
    by (auto simp: crawl_inv_def)
next
  case (leaf url depth st d st1 r0 st0)
  from scrape_page_inv [OF leaf.hyps(2) leaf.prems(2)] leaf.hyps(1)
  have "crawl_inv st1" "visited_urls st1 = insert url (visited_urls st)" by simp_all
  with process_page_state [OF leaf.hyps(3)] leaf.hyps(5) leaf.prems(1) show ?case
    by (auto simp: crawl_inv_def)
next
  case (descend url depth st d st1 results st2 children st0)
  from scrape_page_inv [OF descend.hyps(2) descend.prems(2)] descend.hyps(1)
  have "crawl_inv st1" "visited_urls st1 = insert url (visited_urls st)" by simp_all
  with process_page_state [OF descend.hyps(3)]
  have "crawl_inv st2" "visited_urls st \<subseteq> visited_urls st2"
    by (auto simp: crawl_inv_def)
  with descend.IH [OF descend.hyps(6)] descend.hyps(7) descend.prems(1) show ?case
    by auto
next
  case (nil depth st)
  then show ?case by simp
next
  case (cons child_url relevant_links depth st child_content st1 children st2)
  from cons.IH(1) [OF cons.hyps(1) cons.prems(2)]
  have "crawl_inv st1" "visited_urls st \<subseteq> visited_urls st1"
    by simp_all
  with cons.IH(2) [OF cons.hyps(2)] cons.hyps(3) cons.prems(1) show ?case by auto
qed

subsection \<open>The shape of a result\<close>

lemma spec_of_recorded: "list_all recorded (spec_of u r)"
  by (auto simp: spec_of_def recorded_def split: sum.splits option.splits)

lemma probe_paths_recorded:
  "probe_paths env base_url ps st = (specs, st') \<Longrightarrow> list_all recorded specs"
proof (induction ps arbitrary: st specs st')
  case Nil
  then show ?case by simp
next
  case (Cons p ps)
  then show ?case
    by (auto simp: Let_def spec_of_recorded split: prod.splits)
qed

lemma fetch_specs_ok:
  "fetch_specs env us acc st = (specs, st') \<Longrightarrow> specs_ok acc \<Longrightarrow> specs_ok specs"
proof (induction us arbitrary: acc st specs st')
  case Nil
  then show ?case by simp
next
  case (Cons u us)
  obtain r st1 where f: "fetch env SpecFetch (spec_request u) st = (r, st1)"
    by (cases "fetch env SpecFetch (spec_request u) st")
  let ?acc1 = "case spec_of u r of [] \<Rightarrow> acc
               | found \<Rightarrow> Some ((case acc of None \<Rightarrow> [] | Some xs \<Rightarrow> xs) @ found)"
  from Cons.prems(1) f have "fetch_specs env us ?acc1 st1 = (specs, st')"
    by (simp add: Let_def)
  moreover have "specs_ok ?acc1"
    using Cons.prems(2) spec_of_recorded [of u r]
    by (auto simp: specs_ok_def split: list.splits option.splits)
  ultimately show ?case by (rule Cons.IH)
qed

lemma locate_specs_ok:
  "locate_specs env depth base_url openapi_urls st = (specs, st') \<Longrightarrow> specs_ok specs"
  by (auto simp: locate_specs_def try_common_openapi_endpoints_def Let_def specs_ok_def
      split: prod.splits if_splits option.splits
      dest!: fetch_specs_ok probe_paths_recorded)

lemma process_page_shape:
  "process_page env url depth d st = (Inr r, st') \<Longrightarrow>
     \<exists>c ls specs. r = Page url c ls [] specs \<and> specs_ok specs"
  by (auto simp: process_page_def Let_def specs_ok_def
      split: sum.splits prod.splits if_splits dest!: locate_specs_ok)

lemma handle_failure_shape:
  "handle_failure env url e st = (r, st') \<Longrightarrow> r = Empty \<or> (\<exists>c. r = Page url c [] [] None)"
  by (auto simp: handle_failure_def split: if_splits prod.splits sum.splits option.splits)

lemma extract_site_content_shape:
  assumes "extract_site_content env url depth max_depth st = (r, st')" and "r \<noteq> Empty"
  shows "\<exists>c ls cs specs. r = Page url c ls cs specs \<and> specs_ok specs"
  using assms(1)
proof (cases rule: extract_site_content_cases)
  case skip
  with assms(2) show ?thesis by simp
next
  case (failure e st1)
  from handle_failure_shape [OF failure(3)] assms(2) show ?thesis
    by (auto simp: specs_ok_def)
next
  case (leaf d st1)
  from process_page_shape [OF leaf(3)] show ?thesis by auto
next
  case (descend d st1 results st2 children)
  from process_page_shape [OF descend(3)] descend(7) show ?thesis by auto
qed

subsection \<open>The fan-out cap and the number of fetches\<close>

lemma extract_site_content_url:
  assumes "extract_site_content env url depth max_depth st = (r, st')" and "r \<noteq> Empty"
  shows "page_url r = url"
  using assms(1)
proof (cases rule: extract_site_content_cases)
  case skip
  with assms(2) show ?thesis by simp
next
  case (failure e st1)
  with assms(2) show ?thesis
    by (auto simp: handle_failure_def split: if_splits prod.splits sum.splits option.splits)
next
  case (leaf d st1)
  then show ?thesis
    by (auto simp: process_page_def Let_def split: sum.splits prod.splits if_splits)
next
  case (descend d st1 results st2 children)
  then show ?thesis
    by (auto simp: process_page_def Let_def split: sum.splits prod.splits if_splits)
qed

lemma process_page_children:
  "process_page env url depth d st = (Inr r, st') \<Longrightarrow>
     \<exists>c ls specs. r = Page url c ls [] specs"
  by (auto simp: process_page_def Let_def split: sum.splits prod.splits if_splits)

lemma fetch_bound_pos: "1 \<le> fetch_bound n"
  by (cases n) simp_all

lemma scrape_page_count:
  "scrape_page env url st = (x, st1) \<Longrightarrow>
     length (main_targets (trace st1)) \<le> length (main_targets (trace st)) + 1"
  by (auto simp: main_targets_def dest!: scrape_page_state)

lemma extract_site_content_capped:
  "extract_site_content env url depth max_depth st = (r, st') \<Longrightarrow>
     capped r \<and> length (main_targets (trace st'))
                  \<le> length (main_targets (trace st)) + fetch_bound (nat (max_depth - depth))"
  and explore_pages_capped:
  "explore_pages env urls depth max_depth st = (rs, st') \<Longrightarrow>
     list_all capped rs \<and> subseq (map page_url rs) urls
     \<and> length (main_targets (trace st'))
           \<le> length (main_targets (trace st)) + length urls * fetch_bound (nat (max_depth - depth))"
proof (induction url depth st and urls depth st arbitrary: r st' and rs st'
    rule: crawl_induct [where env = env and max_depth = max_depth])
  case (skip url depth st)
  then show ?case by auto
next
  case (failure url depth st e st1 r0 st0)
  from failure.hyps(2) have "length (main_targets (trace st1)) \<le> length (main_targets (trace st)) + 1"
    by (auto dest!: scrape_page_count process_page_state)
  moreover from handle_failure_state [OF failure.hyps(3)]
  have "main_targets (trace st0) = main_targets (trace st1)" by simp
  moreover from failure.hyps(3) have "capped r0"
    by (auto dest!: handle_failure_shape)
  ultimately show ?case
    using failure.hyps(4) failure.prems fetch_bound_pos [of "nat (max_depth - depth)"]
    by auto
next
  case (leaf url depth st d st1 r0 st0)
  from scrape_page_count [OF leaf.hyps(2)] process_page_state [OF leaf.hyps(3)]
  have "length (main_targets (trace st0)) \<le> length (main_targets (trace st)) + 1"
    by simp
  moreover from process_page_children [OF leaf.hyps(3)] have "capped r0" by auto
  ultimately show ?case
    using leaf.hyps(5) leaf.prems fetch_bound_pos [of "nat (max_depth - depth)"]
    by auto
next
  case (descend url depth st d st1 results st2 children st0)
  let ?urls = "take 3 (filter (\<lambda>link. link \<noteq> url) (page_links results))"
  define B where "B = fetch_bound (nat (max_depth - (depth + 1)))"
  define k where "k = length ?urls"
  from descend.IH [OF descend.hyps(6)]
  have c: "list_all capped children" "subseq (map page_url children) ?urls"
    and n: "length (main_targets (trace st0)) \<le> length (main_targets (trace st2)) + k * B"
    by (simp_all add: B_def k_def)
  from scrape_page_count [OF descend.hyps(2)] process_page_state [OF descend.hyps(3)]
  have m: "length (main_targets (trace st2)) \<le> length (main_targets (trace st)) + 1"
    by simp
  have "k \<le> 3" by (simp add: k_def)
  then have kb: "k * B \<le> 3 * B"
    by (rule mult_le_mono1)
  from descend.hyps(4)
  have "nat (max_depth - depth) = Suc (nat (max_depth - (depth + 1)))" by simp
  then have "fetch_bound (nat (max_depth - depth)) = 1 + 3 * B"
    by (simp add: B_def)
  with n m kb have "length (main_targets (trace st0))
      \<le> length (main_targets (trace st)) + fetch_bound (nat (max_depth - depth))"
    by linarith
  moreover have "length children \<le> 3"
    using list_emb_length [OF c(2)] by simp
  with process_page_children [OF descend.hyps(3)] c
  have "capped (set_child_pages results children)" by auto
  ultimately show ?case using descend.hyps(7) descend.prems by simp
next
  case (nil depth st)
  then show ?case by simp
next
  case (cons child_url relevant_links depth st child_content st1 children st2)
  from cons.IH(1) [OF cons.hyps(1)]
  have a: "capped child_content"
    "length (main_targets (trace st1)) \<le> length (main_targets (trace st))
        + fetch_bound (nat (max_depth - depth))"
    by simp_all
  from cons.IH(2) [OF cons.hyps(2)]
  have b: "list_all capped children" "subseq (map page_url children) relevant_links"
    "length (main_targets (trace st2)) \<le> length (main_targets (trace st1))
        + length relevant_links * fetch_bound (nat (max_depth - depth))"
    by simp_all
  have "subseq (map page_url ((if child_content \<noteq> Empty then [child_content] else []) @ children))
     (child_url # relevant_links)"
    using b(2) extract_site_content_url [OF cons.hyps(1)] by auto
  with a b cons.hyps(3) cons.prems show ?case by auto
qed

subsection \<open>Probing\<close>

lemma probe_fetches_append [simp]:
  "probe_fetches (xs @ ys) = probe_fetches xs @ probe_fetches ys"
  by (simp add: probe_fetches_def)

lemma probe_paths_result:
  "fst (probe_paths env base_url ps st) =
     concat (map2 (\<lambda>p r. spec_of (base_url @ p) r) ps
               (replay env (world st) (map (\<lambda>p. spec_request (base_url @ p)) ps)))"
proof (induction ps arbitrary: st)
  case Nil
  show ?case by simp
next
  case (Cons p ps)
  obtain r w' where s: "scrape_url env (world st) (spec_request (base_url @ p)) = (r, w')"
    by (cases "scrape_url env (world st) (spec_request (base_url @ p))")
  then show ?case
    using Cons.IH [of "st\<lparr>world := w', trace := trace st @ [(ProbeFetch, spec_request (base_url @ p))]\<rparr>"]
    by (auto simp add: Let_def fetch_def split: prod.splits)
qed

lemma spec_of_iff:
  "spec_of u r \<noteq> [] \<longleftrightarrow> (\<exists>d. r = Inr (Some d) \<and> (truthy (resp_markdown d) \<or> truthy (resp_html d)))"
  by (auto simp: spec_of_def split: sum.splits option.splits)

lemma process_page_probes:
  assumes "process_page env url depth d st = (res, st')"
    and "probe_fetches (trace st') \<noteq> probe_fetches (trace st)"
  shows "depth = 0 \<and> \<not> is_pdf url
     \<and> (\<exists>base_url. base_url_of (check_bracketed_host env) url = Inr base_url
          \<and> (case resp_html d of
                None \<Rightarrow> Inr []
              | Some h \<Rightarrow> if h \<noteq> [] then find_embedded_specs (check_bracketed_host env) h base_url
                          else Inr []) = Inr [])"
  using assms
  by (auto simp: process_page_def Let_def probe_fetches_def
      split: sum.splits prod.splits if_splits option.splits dest!: locate_specs_state)

lemma extract_site_content_no_probes:
  "extract_site_content env url depth max_depth st = (r, st') \<Longrightarrow> 0 < depth \<Longrightarrow>
     probe_fetches (trace st') = probe_fetches (trace st)"
  and explore_pages_no_probes:
  "explore_pages env urls depth max_depth st = (rs, st') \<Longrightarrow> 0 < depth \<Longrightarrow>
     probe_fetches (trace st') = probe_fetches (trace st)"
proof (induction url depth st and urls depth st arbitrary: r st' and rs st'
    rule: crawl_induct [where env = env and max_depth = max_depth])
  case (skip url depth st)
  then show ?case by simp
next
  case (failure url depth st e st1 r0 st0)
  have pp: "probe_fetches (trace b) = probe_fetches (trace a)"
    if "process_page env url depth d a = (x, b)" for d a x b
    using process_page_probes [OF that] failure.prems(2) by auto
  from failure.hyps(2) have "probe_fetches (trace st1) = probe_fetches (trace st)"
    by (auto simp: probe_fetches_def dest!: scrape_page_state dest: pp [unfolded probe_fetches_def])
  moreover from failure.hyps(3) have "probe_fetches (trace st0) = probe_fetches (trace st1)"
    by (auto simp: handle_failure_def fetch_def probe_fetches_def
        split: if_splits prod.splits sum.splits option.splits)
  ultimately show ?case using failure.hyps(4) failure.prems(1) by simp
next
  case (leaf url depth st d st1 r0 st0)
  from leaf.hyps(2) have "probe_fetches (trace st1) = probe_fetches (trace st)"
    by (auto simp: probe_fetches_def dest!: scrape_page_state)
  moreover have "probe_fetches (trace st0) = probe_fetches (trace st1)"
    using process_page_probes [OF leaf.hyps(3)] leaf.prems(2) by auto
  ultimately show ?case using leaf.hyps(5) leaf.prems(1) by simp
next
  case (descend url depth st d st1 results st2 children st0)
  from descend.hyps(2) have "probe_fetches (trace st1) = probe_fetches (trace st)"
    by (auto simp: probe_fetches_def dest!: scrape_page_state)
  moreover have "probe_fetches (trace st2) = probe_fetches (trace st1)"
    using process_page_probes [OF descend.hyps(3)] descend.prems(2) by auto
  moreover from descend.prems(2) have "0 < depth + 1" by simp
  from descend.IH [OF descend.hyps(6) this]
  have "probe_fetches (trace st0) = probe_fetches (trace st2)" .
  ultimately show ?case using descend.hyps(7) descend.prems(1) by simp
next
  case (nil depth st)
  then show ?case by simp
next
  case (cons child_url relevant_links depth st child_content st1 children st2)
  from cons.IH(1) [OF cons.hyps(1) cons.prems(2)] cons.IH(2) [OF cons.hyps(2) cons.prems(2)]
    cons.hyps(3) cons.prems(1)
  show ?case by simp
qed

lemmas driver_defs = crawl_def extract_site_content.simps scrape_page_def process_page_def
  handle_failure_def locate_specs_def try_common_openapi_endpoints_def common_paths_def
  collect_links_def fetch_def main_request_def retry_request_def spec_request_def spec_of_def
  truthy_def

section \<open>The claims about the crawl driver\<close>

text \<open>
  Claim C1, as stated: within one top-level invocation no URL is fetched more than once.
  The visited set governs the main fetch of a node only.  A PDF whose main fetch times out
  is requested a second time by the retry: the crawl of \<open>https://x.com/guide.pdf\<close> on a
  service that times out once issues two requests for that URL.
\<close>

theorem crawl_fetches_url_twice_counterexample:
  "trace (snd (crawl pdf_site ''https://x.com/guide.pdf'' 2 0))
     = [(MainFetch, \<lparr>req_url = ''https://x.com/guide.pdf'', formats = [Markdown, Html],
                       timeout = Some 120000, wait_for = Some 5000\<rparr>),
        (RetryFetch, \<lparr>req_url = ''https://x.com/guide.pdf'', formats = [Markdown],
                        timeout = Some 60000, wait_for = Some 1000\<rparr>)]
   \<and> fetched_urls (trace (snd (crawl pdf_site ''https://x.com/guide.pdf'' 2 0)))
     = [''https://x.com/guide.pdf'', ''https://x.com/guide.pdf'']
   \<and> \<not> distinct (fetched_urls (trace (snd (crawl pdf_site ''https://x.com/guide.pdf'' 2 0))))"
proof -
  have p: "is_pdf ''https://x.com/guide.pdf''" "sublist ''timeout'' (lower ''Request Timeout'')"
    by code_simp+
  have t: "trace (snd (crawl pdf_site ''https://x.com/guide.pdf'' 2 0))
     = [(MainFetch, \<lparr>req_url = ''https://x.com/guide.pdf'', formats = [Markdown, Html],
                       timeout = Some 120000, wait_for = Some 5000\<rparr>),
        (RetryFetch, \<lparr>req_url = ''https://x.com/guide.pdf'', formats = [Markdown],
                        timeout = Some 60000, wait_for = Some 1000\<rparr>)]"
    by (simp add: driver_defs pdf_site_def p)
  show ?thesis by (simp add: t fetched_urls_def)
qed

text \<open>
  Claim C1, amended: within one top-level invocation no URL is a crawl target, that is
  receives the main fetch of a node, more than once.  The driver tests membership in the
  visited set before it visits a URL and adds the URL before it descends, so the URLs of
  the main fetches of a crawl are pairwise distinct and lie in the visited set.
  \<open>extract_site_content\<close> is a total function (its recursion is accepted with the measure
  above, for every maximal depth and every scraper), so every crawl terminates, also on a
  site whose pages link to each other, where each of the two pages is visited once.  The
  retry of a PDF and the requests for specifications are outside the visited set and can
  ask for a URL again.
\<close>

theorem crawl_targets_distinct:
  "distinct (main_targets (trace (snd (crawl env url max_depth w))))
   \<and> set (main_targets (trace (snd (crawl env url max_depth w))))
        \<subseteq> visited_urls (snd (crawl env url max_depth w))"
proof -
  obtain r st' where c: "crawl env url max_depth w = (r, st')"
    by (cases "crawl env url max_depth w")
  have "crawl_inv \<lparr>visited_urls = {}, world = w, trace = []\<rparr>"
    by (simp add: crawl_inv_def main_targets_def)
  from extract_site_content_inv [OF c [unfolded crawl_def] this] c show ?thesis
    by (simp add: crawl_inv_def)
qed

theorem crawl_targets_distinct_witness:
  "main_targets (trace (snd (crawl cycle_site ''https://x.com/docs/a'' 5 ())))
     = [''https://x.com/docs/a'', ''https://x.com/docs/b'']
   \<and> distinct (main_targets (trace (snd (crawl cycle_site ''https://x.com/docs/a'' 5 ()))))
   \<and> fst (crawl cycle_site ''https://x.com/docs/a'' 5 ())
     = Page ''https://x.com/docs/a''
         \<lparr>markdown = Some ''page A'', html = None, screenshot = None\<rparr> [''https://x.com/docs/b'']
         [Page ''https://x.com/docs/b''
            \<lparr>markdown = Some ''page B'', html = None, screenshot = None\<rparr>
            [''https://x.com/docs/a''] [] None]
         None"
proof -
  have pure:
    "is_pdf ''https://x.com/docs/a'' = False"
    "is_pdf ''https://x.com/docs/b'' = False"
    "base_url_of (\<lambda>_. None) ''https://x.com/docs/a'' = Inr ''https://x.com''"
    "base_url_of (\<lambda>_. None) ''https://x.com/docs/b'' = Inr ''https://x.com''"
    "api_related (\<lambda>_. None) ''https://x.com'' [''https://x.com/docs/b'']
       = Inr [''https://x.com/docs/b'']"
    "api_related (\<lambda>_. None) ''https://x.com'' [''https://x.com/docs/a'']
       = Inr [''https://x.com/docs/a'']"
    by code_simp+
  have t: "main_targets (trace (snd (crawl cycle_site ''https://x.com/docs/a'' 5 ())))
     = [''https://x.com/docs/a'', ''https://x.com/docs/b'']"
    by (simp add: driver_defs cycle_site_def pure main_targets_def del: api_related.simps)
  have r: "fst (crawl cycle_site ''https://x.com/docs/a'' 5 ())
     = Page ''https://x.com/docs/a''
         \<lparr>markdown = Some ''page A'', html = None, screenshot = None\<rparr> [''https://x.com/docs/b'']
         [Page ''https://x.com/docs/b''
            \<lparr>markdown = Some ''page B'', html = None, screenshot = None\<rparr>
            [''https://x.com/docs/a''] [] None]
         None"
    by (simp add: driver_defs cycle_site_def pure del: api_related.simps)
  from crawl_targets_distinct [of cycle_site "''https://x.com/docs/a''" 5 "()"] t r
  show ?thesis by simp
qed

text \<open>
  Claim C2: a visited page has at most three child pages, taken in order from the first
  three of its relevant links other than its own URL, however many relevant links it has;
  the crawl targets of a crawl are at most as many as the nodes of the ternary tree of
  height \<open>max_depth\<close>, so with \<open>max_depth = 1\<close> there are at most one root fetch and three
  child fetches.
\<close>

theorem fan_out_cap:
  "capped (fst (crawl env url max_depth w))
   \<and> length (main_targets (trace (snd (crawl env url max_depth w)))) \<le> fetch_bound (nat max_depth)
   \<and> length (main_targets (trace (snd (crawl env url 1 w)))) \<le> 1 + 3"
proof -
  have *: "capped (fst (crawl env url m w))
     \<and> length (main_targets (trace (snd (crawl env url m w)))) \<le> fetch_bound (nat m)" for m
    using extract_site_content_capped [of env url 0 m "\<lparr>visited_urls = {}, world = w, trace = []\<rparr>"
        "fst (crawl env url m w)" "snd (crawl env url m w)"]
    by (simp add: crawl_def main_targets_def)
  have "fetch_bound (nat 1) = 4" by (simp add: eval_nat_numeral)
  with * [of max_depth] * [of 1] show ?thesis by simp
qed

theorem fan_out_cap_witness:
  "main_targets (trace (snd (crawl fanout_site ''https://x.com/docs'' 1 ())))
     = [''https://x.com/docs'', ''https://x.com/api/one'', ''https://x.com/api/two'',
        ''https://x.com/api/three'']
   \<and> page_links (fst (crawl fanout_site ''https://x.com/docs'' 1 ()))
     = [''https://x.com/api/one'', ''https://x.com/api/two'', ''https://x.com/api/three'',
        ''https://x.com/api/four'', ''https://x.com/api/five'']
   \<and> map page_url (child_pages (fst (crawl fanout_site ''https://x.com/docs'' 1 ())))
     = [''https://x.com/api/one'', ''https://x.com/api/two'', ''https://x.com/api/three'']
   \<and> capped (fst (crawl fanout_site ''https://x.com/docs'' 1 ()))
   \<and> length (main_targets (trace (snd (crawl fanout_site ''https://x.com/docs'' 1 ())))) \<le> 1 + 3"
proof -
  have pure:
    "is_pdf ''https://x.com/docs'' = False"
    "is_pdf ''https://x.com/api/one'' = False"
    "is_pdf ''https://x.com/api/two'' = False"
    "is_pdf ''https://x.com/api/three'' = False"
    "base_url_of (\<lambda>_. None) ''https://x.com/docs'' = Inr ''https://x.com''"
    "base_url_of (\<lambda>_. None) ''https://x.com/api/one'' = Inr ''https://x.com''"
    "base_url_of (\<lambda>_. None) ''https://x.com/api/two'' = Inr ''https://x.com''"
    "base_url_of (\<lambda>_. None) ''https://x.com/api/three'' = Inr ''https://x.com''"
    "api_related (\<lambda>_. None) ''https://x.com''
       [''/api/one'', ''/api/two'', ''/api/three'', ''/api/four'', ''/api/five'']
      = Inr [''https://x.com/api/one'', ''https://x.com/api/two'', ''https://x.com/api/three'',
             ''https://x.com/api/four'', ''https://x.com/api/five'']"
    by code_simp+
  have t: "main_targets (trace (snd (crawl fanout_site ''https://x.com/docs'' 1 ())))
     = [''https://x.com/docs'', ''https://x.com/api/one'', ''https://x.com/api/two'',
        ''https://x.com/api/three'']"
    by (simp add: driver_defs fanout_site_def pure main_targets_def del: api_related.simps)
  have r: "page_links (fst (crawl fanout_site ''https://x.com/docs'' 1 ()))
     = [''https://x.com/api/one'', ''https://x.com/api/two'', ''https://x.com/api/three'',
        ''https://x.com/api/four'', ''https://x.com/api/five'']
   \<and> map page_url (child_pages (fst (crawl fanout_site ''https://x.com/docs'' 1 ())))
     = [''https://x.com/api/one'', ''https://x.com/api/two'', ''https://x.com/api/three'']"
    by (simp add: driver_defs fanout_site_def pure del: api_related.simps)
  from fan_out_cap [of fanout_site "''https://x.com/docs''" 1 "()"] t r
  show ?thesis by simp
qed

text \<open>
  Claim C3: when the main fetch of a node raises an exception, the node's result is empty
  and no further request is made, unless the URL is a PDF and the lowercased message
  contains \<open>timeout\<close> or \<open>internal server error\<close>: then exactly one retry is made, with
  the formats reduced to markdown, a timeout of 60000 ms and a wait of 1000 ms, and the
  result is the page of the retry, or empty when the retry fails too.
\<close>

theorem main_fetch_failure:
  assumes "\<not> (max_depth < depth \<or> url \<in> visited_urls st)" and "truthy (api_key env)"
    and "scrape_url env (world st) (main_request url) = (Inl e, w1)"
  shows "extract_site_content env url depth max_depth st =
     (if is_pdf url \<and> (sublist ''timeout'' (lower e) \<or> sublist ''internal server error'' (lower e))
      then (case scrape_url env w1 \<lparr>req_url = url, formats = [Markdown],
                                     timeout = Some 60000, wait_for = Some 1000\<rparr> of
              (retry, w2) \<Rightarrow>
                ((case retry of
                    Inr (Some d) \<Rightarrow> Page url \<lparr>markdown = resp_markdown d, html = resp_html d,
                                               screenshot = None\<rparr> [] [] None
                  | _ \<Rightarrow> Empty),
                 st\<lparr>visited_urls := insert url (visited_urls st), world := w2,
                    trace := trace st @ [(MainFetch, main_request url),
                      (RetryFetch, \<lparr>req_url = url, formats = [Markdown],
                                    timeout = Some 60000, wait_for = Some 1000\<rparr>)]\<rparr>))
      else (Empty, st\<lparr>visited_urls := insert url (visited_urls st), world := w1,
                      trace := trace st @ [(MainFetch, main_request url)]\<rparr>))"
  using assms
  by (auto simp: extract_site_content.simps scrape_page_def fetch_def handle_failure_def
      retry_request_def split: prod.splits sum.splits option.splits)

theorem main_fetch_failure_witness:
  "\<not> ((0::int) < 0 \<or> ''https://x.com/guide.pdf'' \<in> {})
   \<and> truthy (api_key pdf_site)
   \<and> scrape_url pdf_site 0 (main_request ''https://x.com/guide.pdf'') = (Inl ''Request Timeout'', 1)
   \<and> is_pdf ''https://x.com/guide.pdf'' \<and> sublist ''timeout'' (lower ''Request Timeout'')
   \<and> extract_site_content pdf_site ''https://x.com/guide.pdf'' 0 0
         \<lparr>visited_urls = {}, world = 0, trace = []\<rparr>
       = (Page ''https://x.com/guide.pdf''
            \<lparr>markdown = Some ''text of the document'', html = None, screenshot = None\<rparr> [] [] None,
          \<lparr>visited_urls = {''https://x.com/guide.pdf''}, world = 2,
            trace = [(MainFetch, \<lparr>req_url = ''https://x.com/guide.pdf'', formats = [Markdown, Html],
                                  timeout = Some 120000, wait_for = Some 5000\<rparr>),
                     (RetryFetch, \<lparr>req_url = ''https://x.com/guide.pdf'', formats = [Markdown],
                                   timeout = Some 60000, wait_for = Some 1000\<rparr>)]\<rparr>)"
proof -
  have p: "is_pdf ''https://x.com/guide.pdf''" by code_simp
  have l: "sublist ''timeout'' (lower ''Request Timeout'')" by code_simp
  have k: "truthy (api_key pdf_site)" by (simp add: truthy_def pdf_site_def)
  have s: "scrape_url pdf_site 0 (main_request ''https://x.com/guide.pdf'') = (Inl ''Request Timeout'', 1)"
    by (simp add: pdf_site_def)
  have v: "\<not> ((0::int) < 0 \<or> ''https://x.com/guide.pdf'' \<in> visited_urls \<lparr>visited_urls = {}, world = 0::nat, trace = []\<rparr>)"
    by simp
  have s': "scrape_url pdf_site (world \<lparr>visited_urls = {}, world = 0::nat, trace = []\<rparr>)
      (main_request ''https://x.com/guide.pdf'') = (Inl ''Request Timeout'', 1)"
    using s by simp
  from main_fetch_failure [OF v k s'] p l k s
  show ?thesis by (simp add: pdf_site_def main_request_def)
qed

text \<open>
  Claim C7: for a URL whose lowercased form ends in \<open>.pdf\<close>, the result of the driver,
  on the normal path and on the retry path, is empty or a page without links, without
  child pages and without the key \<open>openapi_specs\<close>; no specification is fetched and no
  common endpoint is probed.
\<close>

theorem pdf_is_leaf:
  assumes "is_pdf url" and "extract_site_content env url depth max_depth st = (r, st')"
  shows "(r = Empty \<or> (\<exists>c. r = Page url c [] [] None))
         \<and> discovery_fetches (trace st') = discovery_fetches (trace st)"
  using assms(2)
proof (cases rule: extract_site_content_cases)
  case skip
  then show ?thesis by simp
next
  case (failure e st1)
  from failure(2) have "discovery_fetches (trace st1) = discovery_fetches (trace st)"
    using assms(1)
    by (auto simp: scrape_page_def fetch_def process_page_def discovery_fetches_def
        split: if_splits prod.splits sum.splits option.splits)
  with failure(3) show ?thesis
    by (auto simp: handle_failure_def fetch_def discovery_fetches_def
        split: if_splits prod.splits sum.splits option.splits)
next
  case (leaf d st1)
  with assms(1) show ?thesis
    by (auto simp: scrape_page_def fetch_def process_page_def discovery_fetches_def
        split: if_splits prod.splits sum.splits option.splits)
next
  case (descend d st1 results st2 children)
  with assms(1) show ?thesis
    by (auto simp: process_page_def split: sum.splits)
qed

theorem pdf_is_leaf_witness:
  "is_pdf ''https://x.com/guide.pdf''
   \<and> extract_site_content pdf_site ''https://x.com/guide.pdf'' 0 2
         \<lparr>visited_urls = {}, world = 1, trace = []\<rparr>
       = (Page ''https://x.com/guide.pdf''
            \<lparr>markdown = Some ''text of the document'', html = None, screenshot = None\<rparr> [] [] None,
          \<lparr>visited_urls = {''https://x.com/guide.pdf''}, world = 2,
            trace = [(MainFetch, \<lparr>req_url = ''https://x.com/guide.pdf'', formats = [Markdown, Html],
                                  timeout = Some 120000, wait_for = Some 5000\<rparr>)]\<rparr>)
   \<and> discovery_fetches [(MainFetch, \<lparr>req_url = ''https://x.com/guide.pdf'',
                                       formats = [Markdown, Html],
                                       timeout = Some 120000, wait_for = Some 5000\<rparr>)] = []"
proof -
  have p: "is_pdf ''https://x.com/guide.pdf''" by code_simp
  have b: "base_url_of (\<lambda>_. None) ''https://x.com/guide.pdf'' = Inr ''https://x.com''"
    by code_simp
  have e: "extract_site_content pdf_site ''https://x.com/guide.pdf'' 0 2
         \<lparr>visited_urls = {}, world = 1, trace = []\<rparr>
       = (Page ''https://x.com/guide.pdf''
            \<lparr>markdown = Some ''text of the document'', html = None, screenshot = None\<rparr> [] [] None,
          \<lparr>visited_urls = {''https://x.com/guide.pdf''}, world = 2,
            trace = [(MainFetch, \<lparr>req_url = ''https://x.com/guide.pdf'', formats = [Markdown, Html],
                                  timeout = Some 120000, wait_for = Some 5000\<rparr>)]\<rparr>)"
    by (simp add: driver_defs pdf_site_def p b)
  from pdf_is_leaf [OF p e] p e show ?thesis
    by (simp add: discovery_fetches_def)
qed

text \<open>
  Claim C8: \<open>try_common_openapi_endpoints\<close> fetches the fourteen common paths appended to
  the base URL, in the order of the list and whatever the fetches return or raise; its
  result holds a candidate for a path exactly when the fetch of that path returned
  non-empty markdown or HTML; the driver probes only at depth 0 and only when the scan of
  the HTML found no embedded specification URL.
\<close>

theorem probing_common_paths:
  "length common_paths = 14
   \<and> trace (snd (try_common_openapi_endpoints env base_url st))
       = trace st @ map (\<lambda>p. (ProbeFetch, spec_request (base_url @ p))) common_paths
   \<and> fst (try_common_openapi_endpoints env base_url st)
       = concat (map2 (\<lambda>p r. spec_of (base_url @ p) r) common_paths
                   (replay env (world st) (map (\<lambda>p. spec_request (base_url @ p)) common_paths)))
   \<and> (spec_of u r \<noteq> [] \<longleftrightarrow>
         (\<exists>d. r = Inr (Some d) \<and> (truthy (resp_markdown d) \<or> truthy (resp_html d))))
   \<and> trace (snd (locate_specs env depth base_url openapi_urls st))
       = trace st @
          (if openapi_urls \<noteq> [] then map (\<lambda>u. (SpecFetch, spec_request u)) (take 3 openapi_urls)
           else if depth = 0 then map (\<lambda>p. (ProbeFetch, spec_request (base_url @ p))) common_paths
           else [])
   \<and> (probe_fetches (trace (snd (process_page env url depth d st))) \<noteq> probe_fetches (trace st)
        \<longrightarrow> depth = 0 \<and> \<not> is_pdf url
            \<and> (\<exists>base_url. base_url_of (check_bracketed_host env) url = Inr base_url
                 \<and> (case resp_html d of
                       None \<Rightarrow> Inr []
                     | Some h \<Rightarrow>
                         if h \<noteq> []
                         then find_embedded_specs (check_bracketed_host env) h base_url
                         else Inr []) = Inr []))
   \<and> (0 < depth \<longrightarrow>
         probe_fetches (trace (snd (extract_site_content env url depth max_depth st)))
           = probe_fetches (trace st))"
proof -
  have 4: "probe_fetches (trace (snd (process_page env url depth d st))) \<noteq> probe_fetches (trace st)
        \<longrightarrow> depth = 0 \<and> \<not> is_pdf url
            \<and> (\<exists>base_url. base_url_of (check_bracketed_host env) url = Inr base_url
                 \<and> (case resp_html d of
                       None \<Rightarrow> Inr []
                     | Some h \<Rightarrow>
                         if h \<noteq> []
                         then find_embedded_specs (check_bracketed_host env) h base_url
                         else Inr []) = Inr [])"
    using process_page_probes [of env url depth d st "fst (process_page env url depth d st)"
        "snd (process_page env url depth d st)"]
    by simp
  have 1: "length common_paths = 14" by (simp add: common_paths_def)
  have 2: "trace (snd (try_common_openapi_endpoints env base_url st))
       = trace st @ map (\<lambda>p. (ProbeFetch, spec_request (base_url @ p))) common_paths"
    using probe_paths_state [of env base_url common_paths st
        "fst (probe_paths env base_url common_paths st)" "snd (probe_paths env base_url common_paths st)"]
    by (simp add: try_common_openapi_endpoints_def)
  have 3: "fst (try_common_openapi_endpoints env base_url st)
       = concat (map2 (\<lambda>p r. spec_of (base_url @ p) r) common_paths
                   (replay env (world st) (map (\<lambda>p. spec_request (base_url @ p)) common_paths)))"
    by (simp add: try_common_openapi_endpoints_def probe_paths_result)
  have 5: "trace (snd (locate_specs env depth base_url openapi_urls st))
       = trace st @
          (if openapi_urls \<noteq> [] then map (\<lambda>u. (SpecFetch, spec_request u)) (take 3 openapi_urls)
           else if depth = 0 then map (\<lambda>p. (ProbeFetch, spec_request (base_url @ p))) common_paths
           else [])"
    using locate_specs_state [of env depth base_url openapi_urls st
        "fst (locate_specs env depth base_url openapi_urls st)"
        "snd (locate_specs env depth base_url openapi_urls st)"]
    by simp
  have 6: "0 < depth \<longrightarrow>
         probe_fetches (trace (snd (extract_site_content env url depth max_depth st)))
           = probe_fetches (trace st)"
    using extract_site_content_no_probes [of env url depth max_depth st
        "fst (extract_site_content env url depth max_depth st)"
        "snd (extract_site_content env url depth max_depth st)"]
    by simp
  from 1 2 3 spec_of_iff [of u r] 4 5 6 show ?thesis by blast
qed

theorem probing_common_paths_witness:
  "fst (try_common_openapi_endpoints spec_site ''https://x.com''
          \<lparr>visited_urls = {}, world = (), trace = []\<rparr>)
     = [\<lparr>spec_url = ''https://x.com/openapi.json'', spec_markdown = Some ''{}'',
         spec_html = None\<rparr>]
   \<and> map (\<lambda>(s, rq). req_url rq)
         (trace (snd (try_common_openapi_endpoints spec_site ''https://x.com''
            \<lparr>visited_urls = {}, world = (), trace = []\<rparr>)))
     = map (\<lambda>p. ''https://x.com'' @ p) common_paths
   \<and> length common_paths = 14
   \<and> (0::int) < 1
   \<and> probe_fetches (trace (snd (extract_site_content spec_site ''https://x.com'' 1 1
          \<lparr>visited_urls = {}, world = (), trace = []\<rparr>))) = []
   \<and> probe_fetches (trace (snd (process_page spec_site ''https://x.com'' 0
          \<lparr>resp_markdown = Some ''welcome'', resp_html = Some ''<p>welcome</p>'',
            resp_links = None, resp_screenshot = None\<rparr>
          \<lparr>visited_urls = {}, world = (), trace = []\<rparr>))) \<noteq> []"
proof -
  let ?st = "\<lparr>visited_urls = {}, world = (), trace = []\<rparr> :: unit state"
  let ?d = "\<lparr>resp_markdown = Some ''welcome'', resp_html = Some ''<p>welcome</p>'',
            resp_links = None, resp_screenshot = None\<rparr>"
  have pure: "is_pdf ''https://x.com'' = False"
    "base_url_of (\<lambda>_. None) ''https://x.com'' = Inr ''https://x.com''"
    "find_embedded_specs (\<lambda>_. None) ''<p>welcome</p>'' ''https://x.com'' = Inr []"
    by code_simp+
  have r: "fst (try_common_openapi_endpoints spec_site ''https://x.com'' ?st)
     = [\<lparr>spec_url = ''https://x.com/openapi.json'', spec_markdown = Some ''{}'',
         spec_html = None\<rparr>]"
    by (simp add: driver_defs spec_site_def Let_def)
  have p: "probe_fetches (trace (snd (process_page spec_site ''https://x.com'' 0 ?d ?st))) \<noteq> []"
    by (simp add: driver_defs spec_site_def pure probe_fetches_def Let_def)
  from probing_common_paths [of spec_site "''https://x.com''" ?st _ _ 1 "[]" "''https://x.com''" ?d 1]
  have "length common_paths = 14"
    and t: "trace (snd (try_common_openapi_endpoints spec_site ''https://x.com'' ?st))
       = trace ?st @ map (\<lambda>p. (ProbeFetch, spec_request (''https://x.com'' @ p))) common_paths"
    and "probe_fetches (trace (snd (extract_site_content spec_site ''https://x.com'' 1 1 ?st)))
           = probe_fetches (trace ?st)"
    by simp_all
  moreover have "map (\<lambda>(s, rq). req_url rq)
         (trace (snd (try_common_openapi_endpoints spec_site ''https://x.com'' ?st)))
     = map (\<lambda>p. ''https://x.com'' @ p) common_paths"
    unfolding t by (simp add: spec_request_def comp_def)
  ultimately show ?thesis using r p by (simp add: probe_fetches_def)
qed

text \<open>
  Claim C10: a non-empty result of \<open>extract_site_content\<close> is a page whose \<open>url\<close> is the
  URL of the call, with the entries \<open>links\<close> and \<open>child_pages\<close>; the key
  \<open>openapi_specs\<close> is present only with a non-empty list of candidates, each with
  non-empty markdown or HTML.
\<close>

theorem result_shape:
  assumes "extract_site_content env url depth max_depth st = (r, st')" and "r \<noteq> Empty"
  shows "(\<exists>c ls cs. r = Page url c ls cs (openapi_specs r))
         \<and> (\<forall>specs. openapi_specs r = Some specs \<longrightarrow>
               specs \<noteq> [] \<and> list_all recorded specs)"
  using extract_site_content_shape [OF assms] by (auto simp: specs_ok_def)

theorem result_shape_witness:
  "crawl spec_site ''https://x.com'' 0 ()
     = extract_site_content spec_site ''https://x.com'' 0 0
         \<lparr>visited_urls = {}, world = (), trace = []\<rparr>
   \<and> fst (crawl spec_site ''https://x.com'' 0 ())
       = Page ''https://x.com''
           \<lparr>markdown = Some ''welcome'', html = Some ''<p>welcome</p>'', screenshot = None\<rparr>
           [] []
           (Some [\<lparr>spec_url = ''https://x.com/openapi.json'', spec_markdown = Some ''{}'',
                   spec_html = None\<rparr>])
   \<and> recorded \<lparr>spec_url = ''https://x.com/openapi.json'', spec_markdown = Some ''{}'',
                 spec_html = None\<rparr>"
proof -
  have pure: "is_pdf ''https://x.com'' = False"
    "base_url_of (\<lambda>_. None) ''https://x.com'' = Inr ''https://x.com''"
    "find_embedded_specs (\<lambda>_. None) ''<p>welcome</p>'' ''https://x.com'' = Inr []"
    by code_simp+
  have r: "fst (crawl spec_site ''https://x.com'' 0 ())
       = Page ''https://x.com''
           \<lparr>markdown = Some ''welcome'', html = Some ''<p>welcome</p>'', screenshot = None\<rparr>
           [] []
           (Some [\<lparr>spec_url = ''https://x.com/openapi.json'', spec_markdown = Some ''{}'',
                   spec_html = None\<rparr>])"
    by (simp add: driver_defs spec_site_def pure Let_def)
  have e: "extract_site_content spec_site ''https://x.com'' 0 0
         \<lparr>visited_urls = {}, world = (), trace = []\<rparr>
      = (fst (crawl spec_site ''https://x.com'' 0 ()), snd (crawl spec_site ''https://x.com'' 0 ()))"
    by (simp add: crawl_def)
  have n: "fst (crawl spec_site ''https://x.com'' 0 ()) \<noteq> Empty"
    by (simp add: r)
  from result_shape [OF e n] r show ?thesis
    by (simp add: crawl_def)
qed

section \<open>Properties of the specification scan\<close>

subsection \<open>Every match spans a word of the pattern\<close>





















end
